theory Spec2Isabelle
  imports Main "HOL-Library.Char_ord" "HOL-Library.List_Lexorder" "HOL-Library.Multiset"
    "HOL-Library.Sublist"
begin

section \<open>The generic filesystem walker of filesystem/common.go\<close>

subsection \<open>Data\<close>

text \<open>
  A Go \<^verbatim>\<open>error\<close> value is \<^verbatim>\<open>nil\<close> or an error; \<^verbatim>\<open>nil\<close> is \<open>None\<close> of
  \<open>error option\<close>. The walker compares errors only with the two sentinels
  \<^verbatim>\<open>SkipDir\<close> and \<^verbatim>\<open>SkipAll\<close>; every other error is an \<open>OtherError\<close> with its message.
\<close>

datatype error = SkipDir | SkipAll | OtherError string

text \<open>
  \<^verbatim>\<open>fs.FileInfo\<close> is an interface; the walker calls its methods \<^verbatim>\<open>Name()\<close> and
  \<^verbatim>\<open>IsDir()\<close> only.
\<close>

datatype FileInfo = FileInfo (Name: string) (IsDir: bool)

text \<open>
  Of the \<^verbatim>\<open>FileSystem\<close> interface the walker calls \<^verbatim>\<open>ReadDir\<close> only: a directory name
  gives an error or the list of the directory's entries, in the order the implementation
  stores them.
\<close>

type_synonym FileSystem = "string \<Rightarrow> error + FileInfo list"

text \<open>
  A \<^verbatim>\<open>WalkFunc\<close> is a Go closure \<^verbatim>\<open>func(path string, info os.FileInfo, err error) error\<close>.
  It may keep state between calls, so it takes its state \<open>'s\<close> and returns the new one.
  The \<^verbatim>\<open>info\<close> argument is \<^verbatim>\<open>nil\<close> in one call of \<^verbatim>\<open>GenericWalk\<close>, hence the option.
\<close>

type_synonym 's WalkFunc =
  "string \<Rightarrow> FileInfo option \<Rightarrow> error option \<Rightarrow> 's \<Rightarrow> error option \<times> 's"

subsection \<open>The standard library functions the walker calls\<close>

text \<open>
  \<^verbatim>\<open>strings.ToLower\<close> and \<^verbatim>\<open>slices.SortFunc\<close> belong to Go's standard library, not to
  the repository: the first maps every Unicode letter to its lower case, the second runs
  an insertion sort on slices of at most twelve elements and a pattern-defeating
  quicksort on longer ones. The walker is modelled for any two functions in their place:
  they are the two fields of a \<open>golib\<close>, which \<open>readDirInfos\<close>, \<open>walk\<close> and \<open>GenericWalk\<close>
  take as their first argument. A property that depends on what the two functions
  compute says so in a hypothesis (\<open>sorts_by\<close> below); every other property holds
  whatever they compute. \<^verbatim>\<open>slices.SortFunc\<close> is called on a slice of \<open>FileInfo\<close> only.
\<close>

datatype golib =
  GoLib (ToLower: "string \<Rightarrow> string")
        (SortFunc: "(FileInfo \<Rightarrow> FileInfo \<Rightarrow> int) \<Rightarrow> FileInfo list \<Rightarrow> FileInfo list")

text \<open>
  What the documentation of \<^verbatim>\<open>slices.SortFunc\<close> promises of a call with the comparison
  function \<open>cmp\<close>: the slice keeps its elements, and afterwards no element is less than
  an element before it, where \<open>a\<close> is less than \<open>b\<close> when \<^verbatim>\<open>cmp(a, b) < 0\<close>.
\<close>

definition sorts_by :: "golib \<Rightarrow> (FileInfo \<Rightarrow> FileInfo \<Rightarrow> int) \<Rightarrow> bool" where
  "sorts_by L cmp =
     (\<forall>xs. mset (SortFunc L cmp xs) = mset xs \<and>
           sorted_wrt (\<lambda>a b. \<not> cmp b a < 0) (SortFunc L cmp xs))"

text \<open>\<^verbatim>\<open>filepath.Join\<close> is modelled from its documentation, for paths with the
  separator \<^verbatim>\<open>/\<close>.\<close>

text \<open>\<open>split_slash cur s\<close>: the components of \<open>s\<close> between separators, \<open>cur\<close> being the
  component read so far.\<close>

fun split_slash :: "string \<Rightarrow> string \<Rightarrow> string list" where
  "split_slash cur [] = [cur]"
| "split_slash cur (c # cs) =
     (if c = CHR ''/'' then cur # split_slash [] cs else split_slash (cur @ [c]) cs)"

text \<open>
  \<^verbatim>\<open>filepath.Clean\<close>: empty components and \<^verbatim>\<open>.\<close> are dropped; \<^verbatim>\<open>..\<close> removes the
  component before it when that is not \<^verbatim>\<open>..\<close> itself, is dropped at the start of a
  rooted path, and is kept otherwise. An empty result is \<^verbatim>\<open>.\<close>.
\<close>

definition clean_step :: "bool \<Rightarrow> string list \<Rightarrow> string \<Rightarrow> string list" where
  "clean_step rooted out elem =
     (if elem = [] then out
      else if elem = ''.'' then out
      else if elem = ''..'' then
        (if out = [] then (if rooted then out else out @ [elem])
         else if last out = ''..'' then out @ [elem]
         else butlast out)
      else out @ [elem])"

fun join_slash :: "string list \<Rightarrow> string" where
  "join_slash [] = []"
| "join_slash [x] = x"
| "join_slash (x # y # ys) = x @ CHR ''/'' # join_slash (y # ys)"

definition Clean :: "string \<Rightarrow> string" where
  "Clean p =
     (case p of
        [] \<Rightarrow> ''.''
      | c # cs \<Rightarrow>
          (let rooted = (c = CHR ''/'');
               body = join_slash (foldl (clean_step rooted) [] (split_slash [] p))
           in if rooted then CHR ''/'' # body
              else if body = [] then ''.'' else body))"

text \<open>\<^verbatim>\<open>filepath.Join\<close> of two elements: empty elements before the first non-empty one
  are ignored, the rest is joined with the separator and cleaned.\<close>

definition Join :: "string \<Rightarrow> string \<Rightarrow> string" where
  "Join a b =
     (if a = [] then (if b = [] then [] else Clean b)
      else Clean (a @ CHR ''/'' # b))"

subsection \<open>readDirInfos, walk and GenericWalk\<close>

text \<open>The comparison function that \<^verbatim>\<open>readDirInfos\<close> passes to
  \<^verbatim>\<open>slices.SortFunc\<close>.\<close>

definition name_cmp :: "golib \<Rightarrow> FileInfo \<Rightarrow> FileInfo \<Rightarrow> int" where
  "name_cmp L a b = (if ToLower L (Name a) \<ge> ToLower L (Name b) then 1 else - 1)"

definition readDirInfos :: "golib \<Rightarrow> FileSystem \<Rightarrow> string \<Rightarrow> error + FileInfo list" where
  "readDirInfos L f dirname =
     (case f dirname of
        Inl err \<Rightarrow> Inl err
      | Inr dirs \<Rightarrow> Inr (SortFunc L (name_cmp L) dirs))"

text \<open>The two results of the Go call
  \<^verbatim>\<open>infos, err := readDirInfos(...)\<close>.\<close>

fun infos_of :: "error + FileInfo list \<Rightarrow> FileInfo list" where
  "infos_of (Inl err) = []"
| "infos_of (Inr infos) = infos"

fun err_of :: "error + FileInfo list \<Rightarrow> error option" where
  "err_of (Inl err) = Some err"
| "err_of (Inr infos) = None"

text \<open>
  The loop of \<^verbatim>\<open>walk\<close> over the entries of a directory. \<open>rec\<close> is the recursive call of
  \<^verbatim>\<open>walk\<close>, which may not return (\<open>None\<close>). \<open>err\<close> is the variable \<^verbatim>\<open>err\<close> of \<^verbatim>\<open>walk\<close>,
  declared before the loop: the loop assigns the result of every recursive call to it
  and tests it at the start of every iteration.
\<close>

fun walk_loop ::
  "(string \<Rightarrow> FileInfo \<Rightarrow> 's \<Rightarrow> (error option \<times> 's) option) \<Rightarrow> 's WalkFunc \<Rightarrow> string \<Rightarrow>
   FileInfo list \<Rightarrow> error option \<Rightarrow> 's \<Rightarrow> (error option \<times> 's) option" where
  "walk_loop rec walkFn path [] err s = Some (None, s)"
| "walk_loop rec walkFn path (fileInfo # rest) err s =
     (let name = Name fileInfo in
      if name = ''.'' \<or> name = ''..'' then walk_loop rec walkFn path rest err s
      else
        let filename = Join path name in
        if err \<noteq> None then
          (case walkFn filename (Some fileInfo) err s of
             (err2, s2) \<Rightarrow>
               if err2 \<noteq> None \<and> err2 \<noteq> Some SkipDir then Some (err2, s2)
               else walk_loop rec walkFn path rest err s2)
        else
          (case rec filename fileInfo s of
             None \<Rightarrow> None
           | Some (err', s') \<Rightarrow>
               if err' \<noteq> None then
                 (if \<not> IsDir fileInfo \<or> err' \<noteq> Some SkipDir then Some (err', s')
                  else walk_loop rec walkFn path rest err' s')
               else walk_loop rec walkFn path rest err' s'))"

text \<open>
  \<^verbatim>\<open>walk\<close>. The first argument bounds the depth of the recursion: \<open>walk 0\<close> has not
  returned, and a call with \<open>Suc n\<close> makes its recursive calls with \<open>n\<close>.
\<close>

fun walk ::
  "golib \<Rightarrow> nat \<Rightarrow> FileSystem \<Rightarrow> string \<Rightarrow> FileInfo \<Rightarrow> 's WalkFunc \<Rightarrow> 's \<Rightarrow> (error option \<times> 's) option"
where
  "walk L 0 filesystem path info walkFn s = None"
| "walk L (Suc n) filesystem path info walkFn s =
     (if IsDir info then
        (let r = readDirInfos L filesystem path;
             infos = infos_of r;
             err = err_of r
         in case walkFn path (Some info) err s of
              (err1, s1) \<Rightarrow>
                if err \<noteq> None \<or> err1 \<noteq> None then Some (err1, s1)
                else walk_loop (\<lambda>p i s'. walk L n filesystem p i walkFn s') walkFn path infos err s1)
      else Some (walkFn path (Some info) None s))"

text \<open>The loop of \<^verbatim>\<open>GenericWalk\<close> over the entries of the root; \<open>err\<close> is the variable
  the function returns after the loop.\<close>

fun root_loop ::
  "(string \<Rightarrow> FileInfo \<Rightarrow> 's \<Rightarrow> (error option \<times> 's) option) \<Rightarrow> string \<Rightarrow>
   FileInfo list \<Rightarrow> error option \<Rightarrow> 's \<Rightarrow> (error option \<times> 's) option" where
  "root_loop rec root [] err s = Some (err, s)"
| "root_loop rec root (i # rest) err s =
     (let filename = Join root (Name i) in
      case rec filename i s of
        None \<Rightarrow> None
      | Some (err', s') \<Rightarrow>
          if err' = Some SkipDir \<or> err' = Some SkipAll then Some (None, s')
          else root_loop rec root rest err' s')"

definition GenericWalk ::
  "golib \<Rightarrow> nat \<Rightarrow> FileSystem \<Rightarrow> string \<Rightarrow> 's WalkFunc \<Rightarrow> 's \<Rightarrow> (error option \<times> 's) option" where
  "GenericWalk L n filesystem root fn s =
     (case readDirInfos L filesystem root of
        Inl err \<Rightarrow> Some (fn root None (Some err) s)
      | Inr infos \<Rightarrow> root_loop (\<lambda>p i s'. walk L n filesystem p i fn s') root infos None s)"

subsection \<open>Observing the calls of the callback\<close>

text \<open>
  One call of the callback: its three arguments and the value it returned.
\<close>

datatype call =
  Call (c_path: string) (c_info: "FileInfo option") (c_err: "error option")
       (c_ret: "error option")

text \<open>
  A visitor decides its return value from the calls made so far and the arguments of
  the current call; every deterministic callback with state is one. \<open>observe\<close> turns
  a visitor into a \<open>WalkFunc\<close> whose state is the list of calls made so far, so that the
  final state of a walk is the sequence of all calls of the callback, in order.
\<close>

type_synonym visitor =
  "call list \<Rightarrow> string \<Rightarrow> FileInfo option \<Rightarrow> error option \<Rightarrow> error option"

definition observe :: "visitor \<Rightarrow> (call list) WalkFunc" where
  "observe f path info err h = (f h path info err, h @ [Call path info err (f h path info err)])"

definition always_nil :: visitor where
  "always_nil h path info err = None"

subsection \<open>The tree of a filesystem\<close>

text \<open>
  A node of a tree is an entry: the path the walker builds for it, its \<open>FileInfo\<close> and
  the trees of the entries below it.
\<close>

datatype ftree = Node (t_path: string) (t_info: FileInfo) (t_children: "ftree list")

definition label :: "ftree \<Rightarrow> string \<times> FileInfo" where
  "label t = (t_path t, t_info t)"

text \<open>The names \<^verbatim>\<open>.\<close> and \<^verbatim>\<open>..\<close> stand for a directory itself and its parent; an entry
  with another name is a real entry.\<close>

definition not_dot :: "FileInfo \<Rightarrow> bool" where
  "not_dot i = (Name i \<noteq> ''.'' \<and> Name i \<noteq> ''..'')"

definition entries_at :: "string \<Rightarrow> FileInfo list \<Rightarrow> (string \<times> FileInfo) list" where
  "entries_at dir infos = map (\<lambda>j. (Join dir (Name j), j)) infos"

text \<open>
  \<open>unfolds L fs t\<close>: the finite tree \<open>t\<close> is what the filesystem holds at and below the
  entry at the root of \<open>t\<close>. A file and a directory that cannot be read have no
  children; the children of a readable directory are its real entries, in the order of
  \<open>readDirInfos\<close>, each at the path joined from the directory's path and its name.
  A filesystem with a cycle of directories, or with directories nested without end,
  has no such tree.
\<close>

fun unfolds :: "golib \<Rightarrow> FileSystem \<Rightarrow> ftree \<Rightarrow> bool" where
  "unfolds L fs (Node p i ts) =
     (if IsDir i then
        (case readDirInfos L fs p of
           Inl e \<Rightarrow> ts = []
         | Inr infos \<Rightarrow>
             map label ts = entries_at p (filter not_dot infos) \<and> list_all (unfolds L fs) ts)
      else ts = [])"

text \<open>
  \<open>root_unfolds L fs root ts\<close>: the trees \<open>ts\<close> are what \<open>GenericWalk\<close> walks from the
  directory \<open>root\<close>, one tree for every entry that \<open>ReadDir\<close> lists for the root, in the
  order of \<open>readDirInfos\<close>. The loop of \<open>GenericWalk\<close> leaves out no name, so an entry of the
  root named \<^verbatim>\<open>.\<close> or \<^verbatim>\<open>..\<close> has a tree here as well, at the path that \<open>Join\<close> gives
  it: the root itself or its parent. Where the root lists such a name, \<open>ts\<close> is therefore
  not the tree of the entries of the filesystem but holds some of them more than once.
\<close>

definition root_unfolds :: "golib \<Rightarrow> FileSystem \<Rightarrow> string \<Rightarrow> ftree list \<Rightarrow> bool" where
  "root_unfolds L fs root ts =
     (case readDirInfos L fs root of
        Inl e \<Rightarrow> ts = []
      | Inr infos \<Rightarrow> map label ts = entries_at root infos \<and> list_all (unfolds L fs) ts)"

fun height :: "ftree \<Rightarrow> nat" where
  "height (Node p i ts) = Suc (foldr max (map height ts) 0)"

definition forest_height :: "ftree list \<Rightarrow> nat" where
  "forest_height ts = foldr max (map height ts) 0"

text \<open>Every directory of the tree can be read.\<close>

fun listings_ok :: "FileSystem \<Rightarrow> ftree \<Rightarrow> bool" where
  "listings_ok fs (Node p i ts) =
     ((if IsDir i then (case fs p of Inl e \<Rightarrow> False | Inr infos \<Rightarrow> True) else True)
      \<and> list_all (listings_ok fs) ts)"

text \<open>The entries of a tree in pre-order, as the calls a callback that returns
  \<^verbatim>\<open>nil\<close> receives for them: an entry, then the entries of its first child, and so on.\<close>

fun preorder :: "ftree \<Rightarrow> call list" where
  "preorder (Node p i ts) = Call p (Some i) None None # concat (map preorder ts)"

text \<open>The first call of a sequence of calls: its path and \<open>FileInfo\<close>.\<close>

fun first_visit :: "call list \<Rightarrow> (string \<times> FileInfo option) option" where
  "first_visit [] = None"
| "first_visit (c # cs) = Some (c_path c, c_info c)"

text \<open>What \<open>first_visit\<close> gives when the first call is for entry
  \<open>j\<close> of directory \<open>dir\<close>.\<close>

definition visit_of :: "string \<Rightarrow> FileInfo \<Rightarrow> (string \<times> FileInfo option) option" where
  "visit_of dir j = Some (Join dir (Name j), Some j)"

text \<open>
  The calls of a loop over the entries \<open>es\<close> of a directory, cut into segments:
  \<open>calls_of_entries P hist es segs\<close> holds when \<open>segs\<close> has one segment of calls for each of the first
  \<open>length segs\<close> entries of \<open>es\<close>, in the order of \<open>es\<close>, and \<open>P hist e seg\<close> holds of every
  such entry \<open>e\<close>, its segment \<open>seg\<close> and the calls \<open>hist\<close> made before that segment.
\<close>

fun calls_of_entries ::
  "(call list \<Rightarrow> FileInfo \<Rightarrow> call list \<Rightarrow> bool) \<Rightarrow> call list \<Rightarrow> FileInfo list \<Rightarrow>
   call list list \<Rightarrow> bool" where
  "calls_of_entries P hist es [] = True"
| "calls_of_entries P hist [] (seg # segs) = False"
| "calls_of_entries P hist (e # es) (seg # segs) = (P hist e seg \<and> calls_of_entries P (hist @ seg) es segs)"

text \<open>\<open>walked L n fs f dir hist e seg\<close>: after the calls \<open>hist\<close>, the call of \<open>walk\<close> for the
  entry \<open>e\<close> of the directory \<open>dir\<close> returns, and \<open>seg\<close> is all the calls of the callback it
  makes.\<close>

definition walked ::
  "golib \<Rightarrow> nat \<Rightarrow> FileSystem \<Rightarrow> visitor \<Rightarrow> string \<Rightarrow> call list \<Rightarrow> FileInfo \<Rightarrow> call list \<Rightarrow> bool"
where
  "walked L n fs f dir hist e seg =
     (case walk L n fs (Join dir (Name e)) e (observe f) hist of
        None \<Rightarrow> False
      | Some (r, h') \<Rightarrow> h' = hist @ seg)"

text \<open>\<open>reported f dir hist e seg\<close>: \<open>seg\<close> is the one call that the loop of \<open>walk\<close> makes
  for the entry \<open>e\<close> when its variable \<^verbatim>\<open>err\<close> holds \<^verbatim>\<open>SkipDir\<close>.\<close>

definition reported :: "visitor \<Rightarrow> string \<Rightarrow> call list \<Rightarrow> FileInfo \<Rightarrow> call list \<Rightarrow> bool" where
  "reported f dir hist e seg =
     (seg = [Call (Join dir (Name e)) (Some e) (Some SkipDir)
               (f hist (Join dir (Name e)) (Some e) (Some SkipDir))])"

text \<open>A call whose \<open>FileInfo\<close> is present and is not named
  \<^verbatim>\<open>.\<close> or \<^verbatim>\<open>..\<close>.\<close>

definition names_a_real_entry :: "call \<Rightarrow> bool" where
  "names_a_real_entry c = (case c_info c of None \<Rightarrow> False | Some j \<Rightarrow> not_dot j)"

text \<open>
  \<open>halts_at_SkipAll expected r calls\<close>: when a call of \<open>calls\<close> returned \<^verbatim>\<open>SkipAll\<close>,
  it is the last call and the result \<open>r\<close> of the walk is \<open>expected\<close>.
\<close>

fun halts_at_SkipAll :: "error option \<Rightarrow> error option \<Rightarrow> call list \<Rightarrow> bool" where
  "halts_at_SkipAll expected r [] = True"
| "halts_at_SkipAll expected r (c # cs) =
     (if c_ret c = Some SkipAll then cs = [] \<and> r = expected
      else halts_at_SkipAll expected r cs)"

subsection \<open>Example filesystems\<close>

text \<open>
  The examples are run with the two library functions as they compute on the examples'
  inputs, names of ASCII bytes and listings of at most twelve entries:
  \<^verbatim>\<open>strings.ToLower\<close> adds 32 to the bytes \<^verbatim>\<open>A\<close> to \<^verbatim>\<open>Z\<close>, and \<^verbatim>\<open>slices.SortFunc\<close>
  is the insertion sort \<^verbatim>\<open>insertionSortCmpFunc\<close>, in which each element in turn moves
  left while it is less than the element before it. \<open>sift_left\<close> works on the sorted
  part of the slice in reverse, the element before the current one first.
\<close>

definition lower_byte :: "char \<Rightarrow> char" where
  "lower_byte c =
     (if CHR ''A'' \<le> c \<and> c \<le> CHR ''Z'' then char_of (of_char c + (32::nat)) else c)"

definition lower_ascii :: "string \<Rightarrow> string" where
  "lower_ascii s = map lower_byte s"

fun sift_left :: "('a \<Rightarrow> 'a \<Rightarrow> int) \<Rightarrow> 'a \<Rightarrow> 'a list \<Rightarrow> 'a list" where
  "sift_left cmp x [] = [x]"
| "sift_left cmp x (y # before) =
     (if cmp x y < 0 then y # sift_left cmp x before else x # y # before)"

definition insertion_sort :: "('a \<Rightarrow> 'a \<Rightarrow> int) \<Rightarrow> 'a list \<Rightarrow> 'a list" where
  "insertion_sort cmp xs = rev (foldl (\<lambda>done x. sift_left cmp x done) [] xs)"

definition ascii_lib :: golib where
  "ascii_lib = GoLib lower_ascii insertion_sort"

definition ex_fs :: FileSystem where
  "ex_fs p =
     (if p = ''/'' then Inr [FileInfo ''b.txt'' False, FileInfo ''A'' True]
      else if p = ''/A'' then
        Inr [FileInfo ''y'' False, FileInfo ''..'' True, FileInfo ''X'' True, FileInfo ''.'' True]
      else if p = ''/A/X'' then Inr []
      else Inl (OtherError ''file does not exist''))"

definition ex_forest :: "ftree list" where
  "ex_forest =
     [Node ''/A'' (FileInfo ''A'' True)
        [Node ''/A/X'' (FileInfo ''X'' True) [], Node ''/A/y'' (FileInfo ''y'' False) []],
      Node ''/b.txt'' (FileInfo ''b.txt'' False) []]"

definition broken_fs :: FileSystem where
  "broken_fs p = Inl (OtherError ''input/output error'')"

definition half_fs :: FileSystem where
  "half_fs p =
     (if p = ''/'' then Inr [FileInfo ''e'' False, FileInfo ''d'' True]
      else Inl (OtherError ''permission denied''))"

text \<open>A filesystem in which every directory holds a directory: it is no finite tree.\<close>

definition endless_fs :: FileSystem where
  "endless_fs p = Inr [FileInfo ''a'' True]"

text \<open>A root whose listing holds \<^verbatim>\<open>.\<close> and
  \<^verbatim>\<open>..\<close>.\<close>

definition dots_fs :: FileSystem where
  "dots_fs p =
     (if p = ''/'' then Inr [FileInfo ''f'' False, FileInfo ''..'' True, FileInfo ''.'' True]
      else Inl (OtherError ''file does not exist''))"

text \<open>Filesystems and callbacks on which the walker departs from what is said of it.\<close>

definition skip_fs :: FileSystem where
  "skip_fs p =
     (if p = ''/'' then Inr [FileInfo ''a'' True]
      else if p = ''/a'' then Inr [FileInfo ''b'' True, FileInfo ''c'' True]
      else if p = ''/a/b'' then Inr [FileInfo ''g'' False]
      else if p = ''/a/c'' then Inr [FileInfo ''f'' False]
      else Inl (OtherError ''file does not exist''))"

definition skip_b :: visitor where
  "skip_b h path info err = (if path = ''/a/b'' then Some SkipDir else None)"

definition skip_top_fs :: FileSystem where
  "skip_top_fs p =
     (if p = ''/'' then Inr [FileInfo ''b'' True, FileInfo ''c'' True]
      else if p = ''/b'' then Inr [FileInfo ''g'' False]
      else if p = ''/c'' then Inr [FileInfo ''f'' False]
      else Inl (OtherError ''file does not exist''))"

definition skip_top_b :: visitor where
  "skip_top_b h path info err = (if path = ''/b'' then Some SkipDir else None)"

definition unmounted_fs :: FileSystem where
  "unmounted_fs p = Inl (OtherError ''no such device'')"

definition data_fs :: FileSystem where
  "data_fs p =
     (if p = ''/data'' then Inr [FileInfo ''x'' False, FileInfo ''.'' True]
      else Inl (OtherError ''file does not exist''))"

text \<open>A root whose listing holds \<^verbatim>\<open>.\<close>, above a directory with one file.\<close>

definition site_fs :: FileSystem where
  "site_fs p =
     (if p = ''/srv'' then Inr [FileInfo ''www'' True, FileInfo ''.'' True]
      else if p = ''/srv/www'' then Inr [FileInfo ''index.html'' False]
      else Inl (OtherError ''file does not exist''))"

definition abort_all :: visitor where
  "abort_all h path info err = Some SkipAll"

section \<open>The image format: finalize and read back\<close>

text \<open>
  The engine that finalizes a staged tree into an image and reads the image back is code
  of the repository that is not among the source files; only its tests are. The
  definitions of this section are modelled from the specification (sections 3 and 4).
  The specification fixes no byte layout for inode and directory records, so the two
  metadata tables are kept as sequences of records, \<open>meta_cap\<close> records to a metadata
  block; the data area and the fragment blocks are bytes. Permissions, owners, timestamps,
  the id table, the export table and the failures of the backend have no part in the
  round trip and are left out.
\<close>

subsection \<open>Data model\<close>

text \<open>Modelled from the spec: the byte sequences that files, blocks and fragments are
  made of (spec section 3); the engine of the repository is missing from the source
  files.\<close>

type_synonym bytes = "char list"

text \<open>Modelled from the spec: the engine is not among the source files; this is the
  Block Codec Adapter (section 2, component 1; section 6):
  \<^verbatim>\<open>compress(bytes) -> bytes\<close> and
  \<^verbatim>\<open>decompress(bytes) -> bytes\<close>, a pluggable capability whose
  algorithm is out of scope.\<close>

datatype codec = Codec (compress: "bytes \<Rightarrow> bytes") (decompress: "bytes \<Rightarrow> bytes")

text \<open>Modelled from the spec: the engine is not among the source files; this is what
  is fixed when an image is created (section 3, BlockSize; section 4.3, the fixed capacity
  of a metadata block; section 4.5, the fixed depth bound of symlink resolution), together
  with the codec.\<close>

datatype config =
  Config (cfg_codec: codec) (block_size: nat) (meta_cap: nat) (link_depth: nat)

text \<open>Modelled from the spec: the engine is not among the source files; this is
  StagingNode (section 3), a tagged variant: a Directory owns its children by name, a File
  owns its bytes, a Symlink owns its target string. The children are kept in the order of
  their creation; a name is looked up from the front.\<close>

datatype StagingNode =
  Directory "(string \<times> StagingNode) list"
| File bytes
| Symlink string

text \<open>Modelled from the spec: the engine is not among the source files; this is a
  reference to one full block of a file (section 3, DataBlockRef): its offset in the data
  area, its stored length and the flag that it is stored compressed.\<close>

datatype BlockRef = BlockRef (b_offset: nat) (b_len: nat) (b_compressed: bool)

text \<open>Modelled from the spec: the engine is not among the source files; this is a
  fragment reference (section 3, DataBlockRef): fragment-block index, offset inside the
  block, length.\<close>

datatype FragRef = FragRef (f_block: nat) (f_offset: nat) (f_len: nat)

text \<open>Modelled from the spec: the engine is not among the source files; this is
  DataBlockRef (section 3): the ordered full-block references of a file and, optionally, one
  fragment reference for the remainder shorter than a block.\<close>

datatype DataBlockRef = DataBlockRef (d_blocks: "BlockRef list") (d_fragment: "FragRef option")

text \<open>Modelled from the spec: the engine is not among the source files; this is the
  type tag of a directory entry (section 3, DirectoryEntry).\<close>

datatype Kind = KRegularFile | KDirectory | KSymlink

text \<open>Modelled from the spec: the engine is not among the source files; this is
  MetadataRef (section 3): a block index and an offset inside that block.\<close>

type_synonym MetadataRef = "nat \<times> nat"

text \<open>Modelled from the spec: the engine is not among the source files; this is
  InodeRecord (section 3), a tagged variant: a regular file with its size and data block
  references, a directory with the MetadataRef where its entry list starts and the number of
  entries, a symlink with its target string.\<close>

datatype InodeRecord =
  RegularFile nat DataBlockRef
| DirectoryInode MetadataRef nat
| SymlinkInode string

text \<open>Modelled from the spec: the engine is not among the source files; this is
  DirectoryEntry (section 3): name, inode reference, type tag.\<close>

datatype DirectoryEntry = DirectoryEntry (e_name: string) (e_inode: MetadataRef) (e_kind: Kind)

text \<open>Modelled from the spec: the engine is not among the source files; this is the
  error taxonomy (section 7), with the NotADirectory and NotASymlink of section 4.5.\<close>

datatype fs_error =
  InvalidPath | NotFound | AlreadyExists | TypeMismatch | NotADirectory | NotASymlink
| InvalidFormat | CorruptTable | BrokenSymlink | SymlinkLoop | AlreadyFinalized | IOError

text \<open>Modelled from the spec: the engine is not among the source files; this is the
  state of the finalizer while it writes (section 4.4): the data area, the fragment blocks
  already stored, the fragment block being filled (section 4.2), the inode table and the
  directory table (section 4.3).\<close>

record builder =
  w_data :: bytes
  w_frags :: "(bool \<times> bytes) list"
  w_open :: bytes
  w_inodes :: "InodeRecord list"
  w_dirents :: "DirectoryEntry list"

text \<open>Modelled from the spec: the engine is not among the source files; this is the
  finalized image (sections 3 and 4.4): the data area, the fragment blocks, the two metadata
  tables, and of the Superblock the reference to the root inode.\<close>

record sqimage =
  img_data :: bytes
  img_frags :: "(bool \<times> bytes) list"
  img_inodes :: "InodeRecord list"
  img_dirents :: "DirectoryEntry list"
  img_root :: MetadataRef

subsection \<open>Data Block Writer\<close>

text \<open>Modelled from the spec: the engine is not among the source files; this is how a
  block is stored (section 4.2, section 9): compressed, unless the compressed form is not
  strictly smaller than the input; then uncompressed, and flagged as such.\<close>

definition store_block :: "codec \<Rightarrow> bytes \<Rightarrow> bool \<times> bytes" where
  "store_block c chunk =
     (let z = compress c chunk in if length z < length chunk then (True, z) else (False, chunk))"

text \<open>Modelled from the spec: the engine is not among the source files; this is how a
  stored block is read (section 4.5): decompressed when its flag says it is
  compressed.\<close>

fun load_block :: "codec \<Rightarrow> bool \<times> bytes \<Rightarrow> bytes" where
  "load_block c (flag, stored) = (if flag then decompress c stored else stored)"

text \<open>Modelled from the spec: the engine is not among the source files; this is the
  Data Block Writer on the full chunks of a file (section 4.2): the content is cut into
  chunks of BlockSize bytes in order, each stored at the end of the data area; the result is
  the block references, the final partial chunk and the new data area.\<close>

function write_blocks :: "codec \<Rightarrow> nat \<Rightarrow> bytes \<Rightarrow> bytes \<Rightarrow> BlockRef list \<times> bytes \<times> bytes" where
  "write_blocks c bs content data =
     (if bs = 0 then ([], content, data)
      else if length content < bs then ([], content, data)
      else
        (case store_block c (take bs content) of
           (flag, stored) \<Rightarrow>
             (case write_blocks c bs (drop bs content) (data @ stored) of
                (refs, tail, data') \<Rightarrow>
                  (BlockRef (length data) (length stored) flag # refs, tail, data'))))"
  by pat_completeness auto
termination
  by (relation "measure (\<lambda>(c, bs, content, data). length content)") auto

text \<open>Modelled from the spec: the engine is not among the source files; this is
  closing the fragment block being filled (section 4.2): it is compressed as a unit and
  added to the fragment blocks.\<close>

definition flush_fragments :: "codec \<Rightarrow> builder \<Rightarrow> builder" where
  "flush_fragments c w =
     (if w_open w = [] then w
      else w\<lparr>w_frags := w_frags w @ [store_block c (w_open w)], w_open := []\<rparr>)"

text \<open>Modelled from the spec: the engine is not among the source files; this is the
  Data Block Writer on the final partial chunk (section 4.2): an empty one gives no
  fragment; otherwise it is packed into the fragment block being filled, after that block is
  closed when the chunk would take it over BlockSize.\<close>

definition write_fragment :: "codec \<Rightarrow> nat \<Rightarrow> bytes \<Rightarrow> builder \<Rightarrow> FragRef option \<times> builder" where
  "write_fragment c bs tail w =
     (if tail = [] then (None, w)
      else
        (let w1 = (if bs < length (w_open w) + length tail then flush_fragments c w else w)
         in (Some (FragRef (length (w_frags w1)) (length (w_open w1)) (length tail)),
             w1\<lparr>w_open := w_open w1 @ tail\<rparr>)))"

text \<open>Modelled from the spec: the engine is not among the source files; this is the
  Data Block Writer on one file (section 4.2): its DataBlockRef is the list of its full
  blocks and its fragment, if any.\<close>

definition write_file :: "config \<Rightarrow> bytes \<Rightarrow> builder \<Rightarrow> DataBlockRef \<times> builder" where
  "write_file cfg content w =
     (case write_blocks (cfg_codec cfg) (block_size cfg) content (w_data w) of
        (refs, tail, data') \<Rightarrow>
          (case write_fragment (cfg_codec cfg) (block_size cfg) tail (w\<lparr>w_data := data'\<rparr>) of
             (frag, w') \<Rightarrow> (DataBlockRef refs frag, w')))"

subsection \<open>Metadata Table Builder and Finalizer\<close>

text \<open>Modelled from the spec: the engine is not among the source files; this is the
  MetadataRef of the record at position \<open>k\<close> of a table (section 4.3), with
  \<open>cap\<close> records to a block.\<close>

definition ref_of :: "nat \<Rightarrow> nat \<Rightarrow> MetadataRef" where
  "ref_of cap k = (k div cap, k mod cap)"

text \<open>Modelled from the spec: the engine is not among the source files; this is the
  position in a table that a MetadataRef addresses (section 4.3).\<close>

definition pos_of :: "nat \<Rightarrow> MetadataRef \<Rightarrow> nat" where
  "pos_of cap r = fst r * cap + snd r"

text \<open>Modelled from the spec: the engine is not among the source files; this is the
  Metadata Table Builder on an inode record (section 4.3): the record is appended to the
  inode table and its starting MetadataRef is returned.\<close>

definition add_inode :: "config \<Rightarrow> InodeRecord \<Rightarrow> builder \<Rightarrow> MetadataRef \<times> builder" where
  "add_inode cfg rec w =
     (ref_of (meta_cap cfg) (length (w_inodes w)), w\<lparr>w_inodes := w_inodes w @ [rec]\<rparr>)"

text \<open>Modelled from the spec: the engine is not among the source files; this is the
  Metadata Table Builder on the entry list of a directory (section 4.3): the entries are
  appended to the directory table, across blocks when they are many, and the MetadataRef of
  the first is returned.\<close>

definition add_entries :: "config \<Rightarrow> DirectoryEntry list \<Rightarrow> builder \<Rightarrow> MetadataRef \<times> builder" where
  "add_entries cfg entries w =
     (ref_of (meta_cap cfg) (length (w_dirents w)), w\<lparr>w_dirents := w_dirents w @ entries\<rparr>)"

text \<open>Modelled from the spec: the engine is not among the source files; this is steps
  (1) to (3) of Finalize (section 4.4): the staged tree is walked depth-first; the data of a
  file is written before its inode; the children of a directory are finalized before the
  entry list and the inode of the directory are written. Data and metadata go to different
  tables, so writing them in one pass gives the tables that two passes in the same order
  give.\<close>

fun finalize_node :: "config \<Rightarrow> StagingNode \<Rightarrow> builder \<Rightarrow> (MetadataRef \<times> Kind) \<times> builder"
  and finalize_children ::
    "config \<Rightarrow> (string \<times> StagingNode) list \<Rightarrow> builder \<Rightarrow> DirectoryEntry list \<times> builder"
where
  "finalize_node cfg (File content) w =
     (case write_file cfg content w of
        (dref, w1) \<Rightarrow>
          (case add_inode cfg (RegularFile (length content) dref) w1 of
             (ref, w2) \<Rightarrow> ((ref, KRegularFile), w2)))"
| "finalize_node cfg (Symlink target) w =
     (case add_inode cfg (SymlinkInode target) w of
        (ref, w1) \<Rightarrow> ((ref, KSymlink), w1))"
| "finalize_node cfg (Directory children) w =
     (case finalize_children cfg children w of
        (entries, w1) \<Rightarrow>
          (case add_entries cfg entries w1 of
             (start, w2) \<Rightarrow>
               (case add_inode cfg (DirectoryInode start (length entries)) w2 of
                  (ref, w3) \<Rightarrow> ((ref, KDirectory), w3))))"
| "finalize_children cfg [] w = ([], w)"
| "finalize_children cfg (child # rest) w =
     (case finalize_node cfg (snd child) w of
        ((ref, kind), w1) \<Rightarrow>
          (case finalize_children cfg rest w1 of
             (entries, w2) \<Rightarrow> (DirectoryEntry (fst child) ref kind # entries, w2)))"

text \<open>Modelled from the spec: the engine is not among the source files; this is the
  finalizer before anything is written (section 4.4, state Empty).\<close>

definition empty_builder :: builder where
  "empty_builder = \<lparr>w_data = [], w_frags = [], w_open = [], w_inodes = [], w_dirents = []\<rparr>"

text \<open>Modelled from the spec: the engine is not among the source files; this is
  Finalize (section 4.4), on the children of the root directory: the tree is written, the
  last fragment block is closed, and the Superblock gets the reference of the root
  inode.\<close>

definition finalize :: "config \<Rightarrow> (string \<times> StagingNode) list \<Rightarrow> sqimage" where
  "finalize cfg root_children =
     (case finalize_node cfg (Directory root_children) empty_builder of
        ((ref, kind), w) \<Rightarrow>
          (let w' = flush_fragments (cfg_codec cfg) w
           in \<lparr>img_data = w_data w', img_frags = w_frags w', img_inodes = w_inodes w',
               img_dirents = w_dirents w', img_root = ref\<rparr>))"

subsection \<open>Reader and Resolver\<close>

text \<open>Modelled from the spec: the engine is not among the source files; this is
  reading the inode record at a MetadataRef (section 4.5); a reference outside the table is
  CorruptTable (section 7).\<close>

definition inode_at :: "config \<Rightarrow> sqimage \<Rightarrow> MetadataRef \<Rightarrow> fs_error + InodeRecord" where
  "inode_at cfg img r =
     (if snd r < meta_cap cfg \<and> pos_of (meta_cap cfg) r < length (img_inodes img)
      then Inr (img_inodes img ! pos_of (meta_cap cfg) r)
      else Inl CorruptTable)"

text \<open>Modelled from the spec: the engine is not among the source files; this is
  reading the entry list of a directory from its starting MetadataRef and its count
  (sections 4.3 and 4.5).\<close>

definition entries_from :: "config \<Rightarrow> sqimage \<Rightarrow> MetadataRef \<Rightarrow> nat \<Rightarrow> fs_error + DirectoryEntry list" where
  "entries_from cfg img start cnt =
     (if snd start < meta_cap cfg \<and> pos_of (meta_cap cfg) start + cnt \<le> length (img_dirents img)
      then Inr (take cnt (drop (pos_of (meta_cap cfg) start) (img_dirents img)))
      else Inl CorruptTable)"

text \<open>Modelled from the spec: the engine is not among the source files; this is
  reading one full block (section 4.5); a reference outside the data area, or a block that
  is not BlockSize bytes long once decompressed, is CorruptTable (section 7).\<close>

definition read_block :: "config \<Rightarrow> sqimage \<Rightarrow> BlockRef \<Rightarrow> fs_error + bytes" where
  "read_block cfg img r =
     (if b_offset r + b_len r \<le> length (img_data img) then
        (let x = load_block (cfg_codec cfg)
                   (b_compressed r, take (b_len r) (drop (b_offset r) (img_data img)))
         in if length x = block_size cfg then Inr x else Inl CorruptTable)
      else Inl CorruptTable)"

text \<open>Modelled from the spec: the engine is not among the source files; this is
  reading the full blocks of a file in order (section 4.5).\<close>

fun read_blocks :: "config \<Rightarrow> sqimage \<Rightarrow> BlockRef list \<Rightarrow> fs_error + bytes" where
  "read_blocks cfg img [] = Inr []"
| "read_blocks cfg img (r # rs) =
     (case read_block cfg img r of
        Inl e \<Rightarrow> Inl e
      | Inr x \<Rightarrow> (case read_blocks cfg img rs of Inl e \<Rightarrow> Inl e | Inr xs \<Rightarrow> Inr (x @ xs)))"

text \<open>Modelled from the spec: the engine is not among the source files; this is
  reading a fragment from its fragment block (section 4.5).\<close>

definition read_fragment :: "config \<Rightarrow> sqimage \<Rightarrow> FragRef \<Rightarrow> fs_error + bytes" where
  "read_fragment cfg img r =
     (if f_block r < length (img_frags img) then
        (let block = load_block (cfg_codec cfg) (img_frags img ! f_block r)
         in if f_offset r + f_len r \<le> length block
            then Inr (take (f_len r) (drop (f_offset r) block))
            else Inl CorruptTable)
      else Inl CorruptTable)"

text \<open>Modelled from the spec: the engine is not among the source files; this is the
  bytes of a regular file (sections 3 and 4.5): its full blocks, then its fragment; their
  length is the size of the file.\<close>

fun file_content :: "config \<Rightarrow> sqimage \<Rightarrow> InodeRecord \<Rightarrow> fs_error + bytes" where
  "file_content cfg img (RegularFile sz dref) =
     (case read_blocks cfg img (d_blocks dref) of
        Inl e \<Rightarrow> Inl e
      | Inr full \<Rightarrow>
          (case (case d_fragment dref of None \<Rightarrow> Inr [] | Some fr \<Rightarrow> read_fragment cfg img fr) of
             Inl e \<Rightarrow> Inl e
           | Inr tail \<Rightarrow>
               if length (full @ tail) = sz then Inr (full @ tail) else Inl CorruptTable))"
| "file_content cfg img (DirectoryInode start cnt) = Inl TypeMismatch"
| "file_content cfg img (SymlinkInode target) = Inl TypeMismatch"

text \<open>Modelled from the spec: the engine is not among the source files; this is
  \<^verbatim>\<open>read(handle, offset, length)\<close> (section 4.5); the handle is the
  inode record of the file. The second component of the result says that fewer bytes than
  requested were returned, which happens at the end of the file only. Which blocks are
  decompressed does not show in the result.\<close>

definition read :: "config \<Rightarrow> sqimage \<Rightarrow> InodeRecord \<Rightarrow> nat \<Rightarrow> nat \<Rightarrow> fs_error + bytes \<times> bool" where
  "read cfg img handle offset len =
     (case file_content cfg img handle of
        Inl e \<Rightarrow> Inl e
      | Inr content \<Rightarrow>
          (let got = take len (drop offset content) in Inr (got, length got < len)))"

text \<open>Modelled from the spec: the engine is not among the source files; this is the
  segments of a path (section 4.5, path resolution).\<close>

definition segments :: "string \<Rightarrow> string list" where
  "segments path = filter (\<lambda>s. s \<noteq> []) (split_slash [] path)"

text \<open>Modelled from the spec: the engine is not among the source files; this is
  whether a symlink target is absolute (section 4.5).\<close>

definition is_absolute :: "string \<Rightarrow> bool" where
  "is_absolute path = (case path of [] \<Rightarrow> False | c # cs \<Rightarrow> c = CHR ''/'')"

text \<open>Modelled from the spec: the engine is not among the source files; this is the
  path that stands for a symlink met during resolution (section 4.5): a relative target is
  taken from the directory of the symlink, an absolute one from the root; the segments not
  yet resolved follow.\<close>

definition link_path :: "string list \<Rightarrow> string \<Rightarrow> string list \<Rightarrow> string list" where
  "link_path parent target rest =
     foldl (clean_step True) [] ((if is_absolute target then [] else parent) @ segments target)
       @ rest"

text \<open>Modelled from the spec: the engine is not among the source files; this is path
  resolution (section 4.5): from the current directory each segment is looked up by its
  exact name; a symlink before the last segment, or at the last segment when the caller
  asked for what it points to, is resolved from the root, at most \<open>depth\<close>
  times.\<close>

function resolve ::
  "config \<Rightarrow> sqimage \<Rightarrow> bool \<Rightarrow> nat \<Rightarrow> MetadataRef \<Rightarrow> string list \<Rightarrow> string list \<Rightarrow>
   fs_error + MetadataRef" where
  "resolve cfg img follow depth cur parent [] = Inr cur"
| "resolve cfg img follow depth cur parent (seg # rest) =
     (case inode_at cfg img cur of
        Inl e \<Rightarrow> Inl e
      | Inr (RegularFile sz dref) \<Rightarrow> Inl NotADirectory
      | Inr (SymlinkInode target) \<Rightarrow> Inl NotADirectory
      | Inr (DirectoryInode start cnt) \<Rightarrow>
          (case entries_from cfg img start cnt of
             Inl e \<Rightarrow> Inl e
           | Inr entries \<Rightarrow>
               (case find (\<lambda>e. e_name e = seg) entries of
                  None \<Rightarrow> Inl NotFound
                | Some e \<Rightarrow>
                    if e_kind e = KSymlink \<and> (rest \<noteq> [] \<or> follow) then
                      (case inode_at cfg img (e_inode e) of
                         Inl err \<Rightarrow> Inl err
                       | Inr (RegularFile sz dref) \<Rightarrow> Inl CorruptTable
                       | Inr (DirectoryInode s c) \<Rightarrow> Inl CorruptTable
                       | Inr (SymlinkInode target) \<Rightarrow>
                           if depth = 0 then Inl SymlinkLoop
                           else
                             (case resolve cfg img follow (depth - 1) (img_root img) []
                                     (link_path parent target rest) of
                                Inl NotFound \<Rightarrow> Inl BrokenSymlink
                              | Inl NotADirectory \<Rightarrow> Inl BrokenSymlink
                              | r \<Rightarrow> r))
                    else resolve cfg img follow depth (e_inode e) (parent @ [seg]) rest)))"
  by pat_completeness auto
termination
  by (relation "measures [\<lambda>(cfg, img, follow, depth, cur, parent, todo). depth,
                          \<lambda>(cfg, img, follow, depth, cur, parent, todo). length todo]") auto


text \<open>Modelled from the spec: the engine is not among the source files; this is
  \<^verbatim>\<open>open_file(path)\<close> (section 4.5): the path is resolved, following
  symlinks, to the inode record of a regular file.\<close>

definition open_file :: "config \<Rightarrow> sqimage \<Rightarrow> string \<Rightarrow> fs_error + InodeRecord" where
  "open_file cfg img path =
     (case resolve cfg img True (link_depth cfg) (img_root img) [] (segments path) of
        Inl e \<Rightarrow> Inl e
      | Inr r \<Rightarrow>
          (case inode_at cfg img r of
             Inl e \<Rightarrow> Inl e
           | Inr (RegularFile sz dref) \<Rightarrow> Inr (RegularFile sz dref)
           | Inr (DirectoryInode start cnt) \<Rightarrow> Inl TypeMismatch
           | Inr (SymlinkInode target) \<Rightarrow> Inl TypeMismatch))"


subsection \<open>What a staged tree is and what an image holds\<close>







text \<open>The image that a finalizer state would give if it were closed now.\<close>

definition seal :: "codec \<Rightarrow> MetadataRef \<Rightarrow> builder \<Rightarrow> sqimage" where
  "seal c root w =
     (let w' = flush_fragments c w
      in \<lparr>img_data = w_data w', img_frags = w_frags w', img_inodes = w_inodes w',
          img_dirents = w_dirents w', img_root = root\<rparr>)"


text \<open>\<open>extends c a b\<close>: image \<open>b\<close> holds everything image
  \<open>a\<close> holds, at the same places.\<close>

definition extends :: "codec \<Rightarrow> sqimage \<Rightarrow> sqimage \<Rightarrow> bool" where
  "extends c a b =
     (prefix (img_data a) (img_data b) \<and> prefix (img_inodes a) (img_inodes b)
      \<and> prefix (img_dirents a) (img_dirents b)
      \<and> length (img_frags a) \<le> length (img_frags b)
      \<and> (\<forall>k < length (img_frags a).
            prefix (load_block c (img_frags a ! k)) (load_block c (img_frags b ! k))))"

subsection \<open>Example trees\<close>

text \<open>A codec for the examples: a run of at most 255 equal bytes becomes three bytes,
  anything else is kept behind a tag byte.\<close>

definition toy_compress :: "bytes \<Rightarrow> bytes" where
  "toy_compress x =
     (case x of
        [] \<Rightarrow> [CHR 0x00]
      | b # bs \<Rightarrow>
          if bs = replicate (length bs) b \<and> length x < 256
          then [CHR 0x01, char_of (length x), b]
          else CHR 0x00 # x)"

definition toy_decompress :: "bytes \<Rightarrow> bytes" where
  "toy_decompress z =
     (case z of
        [] \<Rightarrow> []
      | t # rest \<Rightarrow>
          if t = CHR 0x01
          then (case rest of [n, b] \<Rightarrow> replicate (of_char n) b | _ \<Rightarrow> [])
          else rest)"

definition toy_cfg :: config where
  "toy_cfg = Config (Codec toy_compress toy_decompress) 4 3 8"


text \<open>The scenario of section 8 of the specification: a relative symlink to a file in
  another directory.\<close>

definition link_tree :: "(string \<times> StagingNode) list" where
  "link_tree =
     [(''target'', Directory [(''file.txt'', File ''target file content'')]),
      (''links'', Directory [(''relative'', Symlink ''../target/file.txt'')])]"

section \<open>Properties of the sort\<close>

lemma name_cmp_less: "name_cmp L a b < 0 \<longleftrightarrow> ToLower L (Name a) < ToLower L (Name b)"
  by (auto simp: name_cmp_def)

lemma sorts_by_mset: "sorts_by L cmp \<Longrightarrow> mset (SortFunc L cmp xs) = mset xs"
  by (simp add: sorts_by_def)

lemma sorts_by_name_cmp_sorted:
  assumes "sorts_by L (name_cmp L)"
  shows "sorted (map (\<lambda>i. ToLower L (Name i)) (SortFunc L (name_cmp L) xs))"
proof -
  from assms have "sorted_wrt (\<lambda>a b. \<not> name_cmp L b a < 0) (SortFunc L (name_cmp L) xs)"
    by (simp add: sorts_by_def)
  then have "sorted_wrt (\<lambda>a b. ToLower L (Name a) \<le> ToLower L (Name b))
      (SortFunc L (name_cmp L) xs)"
    by (simp add: name_cmp_less not_less)
  then show ?thesis by (simp add: sorted_map)
qed

lemma mset_sift_left: "mset (sift_left cmp x ys) = add_mset x (mset ys)"
  by (induction ys) auto

lemma mset_foldl_sift_left:
  "mset (foldl (\<lambda>done x. sift_left cmp x done) acc xs) = mset acc + mset xs"
  by (induction xs arbitrary: acc) (auto simp: mset_sift_left)

lemma mset_insertion_sort: "mset (insertion_sort cmp xs) = mset xs"
  by (simp add: insertion_sort_def mset_foldl_sift_left)

lemma sorted_sift_left:
  "sorted_wrt (\<lambda>a b. \<not> name_cmp L a b < 0) ys \<Longrightarrow>
     sorted_wrt (\<lambda>a b. \<not> name_cmp L a b < 0) (sift_left (name_cmp L) x ys)"
proof (induction ys)
  case Nil
  then show ?case by simp
next
  case (Cons y ys)
  have set_sift: "set (sift_left (name_cmp L) x ys) = insert x (set ys)"
    using mset_sift_left [of "name_cmp L" x ys] by (metis set_mset_mset set_mset_add_mset_insert)
  show ?case
  proof (cases "name_cmp L x y < 0")
    case True
    with Cons show ?thesis by (auto simp: set_sift name_cmp_less)
  next
    case False
    with Cons.prems show ?thesis by (auto simp: name_cmp_less)
  qed
qed

lemma sorted_foldl_sift_left:
  "sorted_wrt (\<lambda>a b. \<not> name_cmp L a b < 0) acc \<Longrightarrow>
     sorted_wrt (\<lambda>a b. \<not> name_cmp L a b < 0)
       (foldl (\<lambda>done x. sift_left (name_cmp L) x done) acc xs)"
proof (induction xs arbitrary: acc)
  case Nil
  then show ?case by simp
next
  case (Cons x xs)
  from Cons.prems have "sorted_wrt (\<lambda>a b. \<not> name_cmp L a b < 0) (sift_left (name_cmp L) x acc)"
    by (rule sorted_sift_left)
  then show ?case using Cons.IH by simp
qed

lemma insertion_sort_sorts: "SortFunc L = insertion_sort \<Longrightarrow> sorts_by L (name_cmp L)"
  unfolding sorts_by_def
proof (intro allI conjI)
  fix xs
  assume L: "SortFunc L = insertion_sort"
  show "mset (SortFunc L (name_cmp L) xs) = mset xs"
    by (simp add: L mset_insertion_sort)
  have "sorted_wrt (\<lambda>a b. \<not> name_cmp L a b < 0)
      (foldl (\<lambda>done x. sift_left (name_cmp L) x done) [] xs)"
    by (rule sorted_foldl_sift_left) simp
  then show "sorted_wrt (\<lambda>a b. \<not> name_cmp L b a < 0) (SortFunc L (name_cmp L) xs)"
    by (simp add: L insertion_sort_def sorted_wrt_rev)
qed

lemma ascii_lib_sorts: "sorts_by ascii_lib (name_cmp ascii_lib)"
  by (rule insertion_sort_sorts) (simp add: ascii_lib_def)

lemma readDirInfos_Inl: "fs p = Inl e \<Longrightarrow> readDirInfos L fs p = Inl e"
  by (simp add: readDirInfos_def)

lemma readDirInfos_Inr: "fs p = Inr l \<Longrightarrow> readDirInfos L fs p = Inr (SortFunc L (name_cmp L) l)"
  by (simp add: readDirInfos_def)

section \<open>Termination on finite trees\<close>

lemma height_le_forest: "t \<in> set ts \<Longrightarrow> height t \<le> foldr max (map height ts) 0"
  by (induction ts) (auto simp: max_def)

lemma walk_loop_returns:
  assumes "\<And>j s. j \<in> set infos \<Longrightarrow> not_dot j \<Longrightarrow> \<exists>r. rec (Join path (Name j)) j s = Some r"
  shows "\<exists>r. walk_loop rec fn path infos err s = Some r"
  using assms
proof (induction infos arbitrary: err s)
  case Nil
  then show ?case by simp
next
  case (Cons j rest)
  have rest: "\<And>err s. \<exists>r. walk_loop rec fn path rest err s = Some r"
    using Cons.IH Cons.prems by simp
  show ?case
  proof (cases "not_dot j")
    case False
    then show ?thesis using rest by (auto simp: not_dot_def Let_def split: if_splits)
  next
    case True
    then have nd: "Name j \<noteq> ''.''" "Name j \<noteq> ''..''"
      by (auto simp: not_dot_def split: if_splits)
    obtain r where r: "rec (Join path (Name j)) j s = Some r"
      using Cons.prems [of j s] True by auto
    show ?thesis
    proof (cases "err = None")
      case True
      then show ?thesis using nd r rest
        by (cases r) (auto simp: Let_def)
    next
      case False
      then show ?thesis using nd rest
        by (auto simp: Let_def split: prod.splits)
    qed
  qed
qed

lemma root_loop_returns:
  assumes "\<And>j s. j \<in> set infos \<Longrightarrow> \<exists>r. rec (Join root (Name j)) j s = Some r"
  shows "\<exists>r. root_loop rec root infos err s = Some r"
  using assms
proof (induction infos arbitrary: err s)
  case Nil
  then show ?case by simp
next
  case (Cons j rest)
  obtain r where r: "rec (Join root (Name j)) j s = Some r"
    using Cons.prems [of j s] by auto
  have rest: "\<And>err s. \<exists>r. root_loop rec root rest err s = Some r"
    using Cons.IH Cons.prems by simp
  show ?case using r rest by (cases r) (auto simp: Let_def)
qed

lemma label_in_entries:
  assumes "map label ts = entries_at p infos" "j \<in> set infos"
  shows "\<exists>t \<in> set ts. t_path t = Join p (Name j) \<and> t_info t = j"
proof -
  have "(Join p (Name j), j) \<in> set (map label ts)"
    using assms by (auto simp: entries_at_def)
  then show ?thesis by (auto simp: label_def)
qed

lemma walk_returns:
  "unfolds L fs t \<Longrightarrow> height t \<le> n \<Longrightarrow> \<exists>r. walk L n fs (t_path t) (t_info t) fn s = Some r"
proof (induction n arbitrary: t s)
  case 0
  then show ?case by (cases t) simp
next
  case (Suc n)
  obtain p i ts where t: "t = Node p i ts" by (cases t)
  show ?case
  proof (cases "IsDir i")
    case False
    then show ?thesis by (simp add: t)
  next
    case True
    show ?thesis
    proof (cases "readDirInfos L fs p")
      case (Inl e)
      then show ?thesis using True by (simp add: t split: prod.splits)
    next
      case (Inr infos)
      have lab: "map label ts = entries_at p (filter not_dot infos)"
        and sub: "list_all (unfolds L fs) ts"
        using Suc.prems(1) True Inr by (simp_all add: t)
      have kids: "\<exists>r. walk L n fs (Join p (Name j)) j fn s' = Some r"
        if "j \<in> set infos" "not_dot j" for j s'
      proof -
        from that lab obtain t' where t': "t' \<in> set ts" "t_path t' = Join p (Name j)" "t_info t' = j"
          using label_in_entries [of ts p "filter not_dot infos" j] by auto
        have "unfolds L fs t'" using sub t'(1) by (simp add: list_all_iff)
        moreover have "height t' \<le> n"
          using height_le_forest [OF t'(1)] Suc.prems(2) by (simp add: t)
        ultimately show ?thesis using Suc.IH [of t' s'] t' by simp
      qed
      have "\<exists>r. walk_loop (\<lambda>p i s'. walk L n fs p i fn s') fn p infos e' s' = Some r" for e' s'
        by (rule walk_loop_returns) (use kids in auto)
      then show ?thesis using True Inr by (simp add: t split: prod.splits)
    qed
  qed
qed

lemma GenericWalk_returns:
  assumes "root_unfolds L fs root ts" "forest_height ts \<le> n"
  shows "\<exists>r. GenericWalk L n fs root fn s = Some r"
proof (cases "readDirInfos L fs root")
  case (Inl e)
  then show ?thesis by (simp add: GenericWalk_def)
next
  case (Inr infos)
  have lab: "map label ts = entries_at root infos" and sub: "list_all (unfolds L fs) ts"
    using assms(1) Inr by (simp_all add: root_unfolds_def)
  have kids: "\<exists>r. walk L n fs (Join root (Name j)) j fn s' = Some r" if "j \<in> set infos" for j s'
  proof -
    from that lab obtain t' where t': "t' \<in> set ts" "t_path t' = Join root (Name j)" "t_info t' = j"
      using label_in_entries [of ts root infos j] by auto
    have "unfolds L fs t'" using sub t'(1) by (simp add: list_all_iff)
    moreover have "height t' \<le> n"
      using height_le_forest [OF t'(1)] assms(2) by (simp add: forest_height_def)
    ultimately show ?thesis using walk_returns [of L fs t' n fn s'] t' by simp
  qed
  have "\<exists>r. root_loop (\<lambda>p i s'. walk L n fs p i fn s') root infos None s = Some r"
    by (rule root_loop_returns) (use kids in auto)
  then show ?thesis using Inr by (simp add: GenericWalk_def)
qed

section \<open>The walk with a callback that returns nil\<close>

lemma observe_nil: "observe always_nil p i e h = (None, h @ [Call p i e None])"
  by (simp add: observe_def always_nil_def)

lemma walk_loop_nil:
  assumes "map label ts = entries_at path (filter not_dot infos)"
    and "\<And>t h. t \<in> set ts \<Longrightarrow> rec (t_path t) (t_info t) h = Some (None, h @ preorder t)"
  shows "walk_loop rec (observe always_nil) path infos None h
         = Some (None, h @ concat (map preorder ts))"
  using assms
proof (induction infos arbitrary: ts h)
  case Nil
  then show ?case by (simp add: entries_at_def)
next
  case (Cons j rest)
  show ?case
  proof (cases "not_dot j")
    case False
    then have "map label ts = entries_at path (filter not_dot rest)"
      using Cons.prems(1) by simp
    from Cons.IH [OF this Cons.prems(2)] False show ?thesis
      by (auto simp: not_dot_def Let_def split: if_splits)
  next
    case True
    then have nd: "Name j \<noteq> ''.''" "Name j \<noteq> ''..''"
      by (auto simp: not_dot_def split: if_splits)
    from True Cons.prems(1) obtain t ts' where ts: "ts = t # ts'"
      and lt: "label t = (Join path (Name j), j)"
      and ts': "map label ts' = entries_at path (filter not_dot rest)"
      by (cases ts) (auto simp: entries_at_def)
    have t: "t_path t = Join path (Name j)" "t_info t = j"
      using lt by (simp_all add: label_def)
    have rec_t: "rec (Join path (Name j)) j h = Some (None, h @ preorder t)"
      using Cons.prems(2) [of t h] t ts by simp
    have "walk_loop rec (observe always_nil) path rest None (h @ preorder t)
          = Some (None, (h @ preorder t) @ concat (map preorder ts'))"
      by (rule Cons.IH [OF ts']) (use Cons.prems(2) ts in auto)
    then show ?thesis using nd rec_t ts by (simp add: Let_def)
  qed
qed

lemma root_loop_nil:
  assumes "map label ts = entries_at root infos"
    and "\<And>t h. t \<in> set ts \<Longrightarrow> rec (t_path t) (t_info t) h = Some (None, h @ preorder t)"
  shows "root_loop rec root infos None h = Some (None, h @ concat (map preorder ts))"
  using assms
proof (induction infos arbitrary: ts h)
  case Nil
  then show ?case by (simp add: entries_at_def)
next
  case (Cons j rest)
  from Cons.prems(1) obtain t ts' where ts: "ts = t # ts'"
    and lt: "label t = (Join root (Name j), j)"
    and ts': "map label ts' = entries_at root rest"
    by (cases ts) (auto simp: entries_at_def)
  have t: "t_path t = Join root (Name j)" "t_info t = j"
    using lt by (simp_all add: label_def)
  have rec_t: "rec (Join root (Name j)) j h = Some (None, h @ preorder t)"
    using Cons.prems(2) [of t h] t ts by simp
  have "root_loop rec root rest None (h @ preorder t)
        = Some (None, (h @ preorder t) @ concat (map preorder ts'))"
    by (rule Cons.IH [OF ts']) (use Cons.prems(2) ts in auto)
  then show ?case using rec_t ts by (simp add: Let_def)
qed

lemma walk_nil:
  "unfolds L fs t \<Longrightarrow> listings_ok fs t \<Longrightarrow> height t \<le> n \<Longrightarrow>
   walk L n fs (t_path t) (t_info t) (observe always_nil) h = Some (None, h @ preorder t)"
proof (induction n arbitrary: t h)
  case 0
  then show ?case by (cases t) simp
next
  case (Suc n)
  obtain p i ts where t: "t = Node p i ts" by (cases t)
  show ?case
  proof (cases "IsDir i")
    case False
    then have "ts = []" using Suc.prems(1) by (simp add: t)
    then show ?thesis using False by (simp add: t observe_nil)
  next
    case True
    from Suc.prems(2) True obtain l where l: "fs p = Inr l"
      by (auto simp: t split: sum.splits)
    define infos where "infos = SortFunc L (name_cmp L) l"
    have rd: "readDirInfos L fs p = Inr infos"
      using l by (simp add: infos_def readDirInfos_def)
    have lab: "map label ts = entries_at p (filter not_dot infos)"
      and sub: "list_all (unfolds L fs) ts"
      using Suc.prems(1) True rd by (simp_all add: t)
    have oks: "list_all (listings_ok fs) ts"
      using Suc.prems(2) by (simp add: t)
    have kids: "walk L n fs (t_path t') (t_info t') (observe always_nil) h'
                = Some (None, h' @ preorder t')" if "t' \<in> set ts" for t' h'
    proof (rule Suc.IH)
      show "unfolds L fs t'" using sub that by (simp add: list_all_iff)
      show "listings_ok fs t'" using oks that by (simp add: list_all_iff)
      show "height t' \<le> n" using height_le_forest [OF that] Suc.prems(3) by (simp add: t)
    qed
    have "walk_loop (\<lambda>p i s'. walk L n fs p i (observe always_nil) s') (observe always_nil) p infos
            None (h @ [Call p (Some i) None None])
          = Some (None, (h @ [Call p (Some i) None None]) @ concat (map preorder ts))"
      by (rule walk_loop_nil [OF lab]) (use kids in auto)
    moreover have "observe always_nil p (Some i) None h = (None, h @ [Call p (Some i) None None])"
      by (rule observe_nil)
    ultimately show ?thesis using True rd by (simp add: t)
  qed
qed

lemma GenericWalk_nil:
  assumes "fs root = Inr l" "root_unfolds L fs root ts" "list_all (listings_ok fs) ts"
    "forest_height ts \<le> n"
  shows "GenericWalk L n fs root (observe always_nil) h = Some (None, h @ concat (map preorder ts))"
proof -
  define infos where "infos = SortFunc L (name_cmp L) l"
  have rd: "readDirInfos L fs root = Inr infos"
    using assms(1) by (simp add: infos_def readDirInfos_def)
  have lab: "map label ts = entries_at root infos" and sub: "list_all (unfolds L fs) ts"
    using assms(2) rd by (simp_all add: root_unfolds_def)
  have kids: "walk L n fs (t_path t') (t_info t') (observe always_nil) h'
              = Some (None, h' @ preorder t')" if "t' \<in> set ts" for t' h'
  proof (rule walk_nil)
    show "unfolds L fs t'" using sub that by (simp add: list_all_iff)
    show "listings_ok fs t'" using assms(3) that by (simp add: list_all_iff)
    show "height t' \<le> n"
      using height_le_forest [OF that] assms(4) by (simp add: forest_height_def)
  qed
  have "root_loop (\<lambda>p i s'. walk L n fs p i (observe always_nil) s') root infos None h
        = Some (None, h @ concat (map preorder ts))"
    by (rule root_loop_nil [OF lab]) (use kids in auto)
  then show ?thesis using rd by (simp add: GenericWalk_def)
qed

section \<open>The calls of one directory\<close>

lemma observe_call:
  "observe f p i e h = (r, h') \<Longrightarrow> h' = h @ [Call p i e r]"
  by (auto simp: observe_def)

lemma not_dot_iff: "not_dot j \<longleftrightarrow> Name j \<noteq> ''.'' \<and> Name j \<noteq> ''..''"
  by (simp add: not_dot_def)

text \<open>One step of the loop of walk, by cases.\<close>

lemma walk_loop_dot:
  "\<not> not_dot j \<Longrightarrow> walk_loop rec fn path (j # rest) err s = walk_loop rec fn path rest err s"
  by (auto simp: not_dot_iff Let_def)

lemma walk_loop_err:
  assumes "not_dot j" "err \<noteq> None" "fn (Join path (Name j)) (Some j) err s = (r2, s2)"
  shows "walk_loop rec fn path (j # rest) err s =
         (if r2 \<noteq> None \<and> r2 \<noteq> Some SkipDir then Some (r2, s2)
          else walk_loop rec fn path rest err s2)"
  using assms by (auto simp: not_dot_iff Let_def)

lemma walk_loop_rec:
  assumes "not_dot j" "rec (Join path (Name j)) j s = Some (r1, s1)"
  shows "walk_loop rec fn path (j # rest) None s =
         (if r1 = None then walk_loop rec fn path rest None s1
          else if IsDir j \<and> r1 = Some SkipDir then walk_loop rec fn path rest (Some SkipDir) s1
          else Some (r1, s1))"
  using assms by (auto simp: not_dot_iff Let_def)

lemma walk_loop_rec_None:
  assumes "not_dot j" "rec (Join path (Name j)) j s = None"
  shows "walk_loop rec fn path (j # rest) None s = None"
  using assms by (auto simp: not_dot_iff Let_def)

declare walk_loop.simps(2) [simp del]

lemma walk_loop_segments:
  assumes rec_first: "\<And>p i h r h'. rec p i h = Some (r, h') \<Longrightarrow>
            \<exists>c cs. h' = h @ c # cs \<and> c_path c = p \<and> c_info c = Some i"
  shows "walk_loop rec (observe f) path infos err h = Some (r, h') \<Longrightarrow>
         \<exists>segs k. h' = h @ concat segs \<and>
           map first_visit segs = map (visit_of path) (take k (filter not_dot infos))"
proof (induction infos arbitrary: err h)
  case Nil
  then have "h' = h @ concat []" by simp
  moreover have "map first_visit [] = map (visit_of path) (take 0 (filter not_dot []))" by simp
  ultimately show ?case by blast
next
  case (Cons j rest)
  show ?case
  proof (cases "not_dot j")
    case False
    with Cons.prems have "walk_loop rec (observe f) path rest err h = Some (r, h')"
      by (simp add: walk_loop_dot)
    from Cons.IH [OF this] False show ?thesis by simp
  next
    case True
    have step: "\<exists>segs k. h' = h @ concat segs \<and>
           map first_visit segs = map (visit_of path) (take k (filter not_dot (j # rest)))"
      if seg: "seg = c # cs" "c_path c = Join path (Name j)" "c_info c = Some j"
        and cont: "h' = h @ seg \<or> (\<exists>err'. walk_loop rec (observe f) path rest err' (h @ seg) = Some (r, h'))"
      for seg c cs
    proof -
      from cont show ?thesis
      proof
        assume "h' = h @ seg"
        then have "h' = h @ concat [seg]" by simp
        moreover have "map first_visit [seg] = map (visit_of path) (take 1 (filter not_dot (j # rest)))"
          using seg True by (simp add: visit_of_def)
        ultimately show ?thesis by blast
      next
        assume "\<exists>err'. walk_loop rec (observe f) path rest err' (h @ seg) = Some (r, h')"
        then obtain err' where "walk_loop rec (observe f) path rest err' (h @ seg) = Some (r, h')" ..
        from Cons.IH [OF this] obtain segs k where
          a: "h' = (h @ seg) @ concat segs"
          and b: "map first_visit segs = map (visit_of path) (take k (filter not_dot rest))"
          by blast
        have "h' = h @ concat (seg # segs)" using a by simp
        moreover have "map first_visit (seg # segs)
                       = map (visit_of path) (take (Suc k) (filter not_dot (j # rest)))"
          using b seg True by (simp add: visit_of_def)
        ultimately show ?thesis by blast
      qed
    qed
    show ?thesis
    proof (cases "err = None")
      case False
      obtain r2 h2 where cb: "observe f (Join path (Name j)) (Some j) err h = (r2, h2)"
        by (cases "observe f (Join path (Name j)) (Some j) err h")
      have h2: "h2 = h @ [Call (Join path (Name j)) (Some j) err r2]"
        using cb by (rule observe_call)
      define c where "c = Call (Join path (Name j)) (Some j) err r2"
      have "h' = h2 \<or> walk_loop rec (observe f) path rest err h2 = Some (r, h')"
        using Cons.prems walk_loop_err [where fn = "observe f" and rec = rec and rest = rest, OF True False cb]
        by (auto split: if_splits)
      then have "h' = h @ [c] \<or> (\<exists>err'. walk_loop rec (observe f) path rest err' (h @ [c]) = Some (r, h'))"
        using h2 by (auto simp: c_def)
      moreover have "c_path c = Join path (Name j)" "c_info c = Some j"
        by (simp_all add: c_def)
      ultimately show ?thesis
        using step [of "[c]" c "[]"] by blast
    next
      case None: True
      show ?thesis
      proof (cases "rec (Join path (Name j)) j h")
        case none: None
        then show ?thesis using Cons.prems None walk_loop_rec_None [where rec = rec and path = path and s = h, OF True none] by simp
      next
        case (Some a)
        obtain r1 h1 where a: "a = (r1, h1)" by (cases a)
        from rec_first [of "Join path (Name j)" j h r1 h1] Some a
        obtain c cs where h1: "h1 = h @ c # cs" "c_path c = Join path (Name j)" "c_info c = Some j"
          by auto
        have "h' = h1 \<or> (\<exists>err'. walk_loop rec (observe f) path rest err' h1 = Some (r, h'))"
          using Cons.prems None walk_loop_rec [where fn = "observe f" and rec = rec and rest = rest and path = path and s = h
              and ?r1.0 = r1 and ?s1.0 = h1, OF True] Some a
          by (auto split: if_splits)
        then have "h' = h @ c # cs \<or> (\<exists>err'. walk_loop rec (observe f) path rest err' (h @ c # cs) = Some (r, h'))"
          using h1 by simp
        then show ?thesis
          using step [of "c # cs" c cs] h1(2,3) by blast
      qed
    qed
  qed
qed

section \<open>One step of walk, and the first call of a walk\<close>

lemma walk_Suc_file:
  "\<not> IsDir i \<Longrightarrow> walk L (Suc n) fs p i fn s = Some (fn p (Some i) None s)"
  by simp

lemma walk_Suc_dir:
  assumes "IsDir i" "fn p (Some i) (err_of (readDirInfos L fs p)) s = (r1, s1)"
  shows "walk L (Suc n) fs p i fn s =
         (if err_of (readDirInfos L fs p) \<noteq> None then Some (r1, s1)
          else if r1 \<noteq> None then Some (r1, s1)
          else walk_loop (\<lambda>p i s'. walk L n fs p i fn s') fn p (infos_of (readDirInfos L fs p)) None s1)"
  using assms by (simp add: Let_def)

lemma observe_eq: "observe f p i e h = (f h p i e, h @ [Call p i e (f h p i e)])"
  by (simp add: observe_def)

lemma walk_first_call:
  "walk L n fs p i (observe f) h = Some (r, h') \<Longrightarrow>
   \<exists>c cs. h' = h @ c # cs \<and> c_path c = p \<and> c_info c = Some i"
proof (induction n arbitrary: p i h r h')
  case 0
  then show ?case by simp
next
  case (Suc n)
  show ?case
  proof (cases "IsDir i")
    case False
    with Suc.prems have "h' = h @ [Call p (Some i) None (f h p (Some i) None)]"
      by (auto simp add: walk_Suc_file observe_eq simp del: walk.simps)
    then show ?thesis by simp
  next
    case True
    define e where "e = err_of (readDirInfos L fs p)"
    define c where "c = Call p (Some i) e (f h p (Some i) e)"
    have cb: "observe f p (Some i) (err_of (readDirInfos L fs p)) h = (f h p (Some i) e, h @ [c])"
      by (simp add: observe_eq e_def c_def)
    have "h' = h @ [c] \<or>
          walk_loop (\<lambda>p i s'. walk L n fs p i (observe f) s') (observe f) p
            (infos_of (readDirInfos L fs p)) None (h @ [c]) = Some (r, h')"
      using Suc.prems walk_Suc_dir [where fn = "observe f", OF True cb, of n]
      by (auto simp del: walk.simps split: if_splits)
    then show ?thesis
    proof
      assume "h' = h @ [c]"
      then show ?thesis by (simp add: c_def)
    next
      assume "walk_loop (\<lambda>p i s'. walk L n fs p i (observe f) s') (observe f) p
            (infos_of (readDirInfos L fs p)) None (h @ [c]) = Some (r, h')"
      then obtain segs where "h' = (h @ [c]) @ concat segs"
        using walk_loop_segments [where rec = "\<lambda>p i s'. walk L n fs p i (observe f) s'"] Suc.IH
        by blast
      then show ?thesis by (simp add: c_def)
    qed
  qed
qed

lemma walk_dir_segments:
  assumes "IsDir i" "walk L n fs p i (observe f) h = Some (r, h')"
  shows "\<exists>c segs k. h' = h @ c # concat segs \<and> c_path c = p \<and> c_info c = Some i \<and>
           map first_visit segs
             = map (visit_of p) (take k (filter not_dot (infos_of (readDirInfos L fs p))))"
proof (cases n)
  case 0
  with assms show ?thesis by simp
next
  case (Suc m)
  define e where "e = err_of (readDirInfos L fs p)"
  define c where "c = Call p (Some i) e (f h p (Some i) e)"
  have c: "c_path c = p" "c_info c = Some i" by (simp_all add: c_def)
  have cb: "observe f p (Some i) (err_of (readDirInfos L fs p)) h = (f h p (Some i) e, h @ [c])"
    by (simp add: observe_eq e_def c_def)
  have "h' = h @ [c] \<or>
        walk_loop (\<lambda>p i s'. walk L m fs p i (observe f) s') (observe f) p
          (infos_of (readDirInfos L fs p)) None (h @ [c]) = Some (r, h')"
    using assms(2) Suc walk_Suc_dir [where fn = "observe f", OF assms(1) cb, of m]
    by (auto simp del: walk.simps split: if_splits)
  then show ?thesis
  proof
    assume "h' = h @ [c]"
    then have "h' = h @ c # concat []" by simp
    moreover have "map first_visit []
        = map (visit_of p) (take 0 (filter not_dot (infos_of (readDirInfos L fs p))))"
      by simp
    ultimately show ?thesis using c by blast
  next
    assume "walk_loop (\<lambda>p i s'. walk L m fs p i (observe f) s') (observe f) p
          (infos_of (readDirInfos L fs p)) None (h @ [c]) = Some (r, h')"
    then obtain segs k where "h' = (h @ [c]) @ concat segs"
      and "map first_visit segs
        = map (visit_of p) (take k (filter not_dot (infos_of (readDirInfos L fs p))))"
      using walk_loop_segments [where rec = "\<lambda>p i s'. walk L m fs p i (observe f) s'"]
        walk_first_call
      by blast
    then show ?thesis using c by auto
  qed
qed

lemma root_loop_segments:
  assumes rec_first: "\<And>p i h r h'. rec p i h = Some (r, h') \<Longrightarrow>
            \<exists>c cs. h' = h @ c # cs \<and> c_path c = p \<and> c_info c = Some i"
  shows "root_loop rec root infos err h = Some (r, h') \<Longrightarrow>
         \<exists>segs k. h' = h @ concat segs \<and>
           map first_visit segs = map (visit_of root) (take k infos)"
proof (induction infos arbitrary: err h)
  case Nil
  then have "h' = h @ concat []" by simp
  moreover have "map first_visit [] = map (visit_of root) (take 0 [])" by simp
  ultimately show ?case by blast
next
  case (Cons j rest)
  show ?case
  proof (cases "rec (Join root (Name j)) j h")
    case None
    with Cons.prems show ?thesis by (simp add: Let_def)
  next
    case (Some a)
    obtain r1 h1 where a: "a = (r1, h1)" by (cases a)
    from rec_first [of "Join root (Name j)" j h r1 h1] Some a
    obtain c cs where h1: "h1 = h @ c # cs" "c_path c = Join root (Name j)" "c_info c = Some j"
      by auto
    have fv: "first_visit (c # cs) = visit_of root j"
      using h1 by (simp add: visit_of_def)
    have "h' = h1 \<or> root_loop rec root rest r1 h1 = Some (r, h')"
      using Cons.prems Some a by (auto simp: Let_def split: if_splits)
    then show ?thesis
    proof
      assume "h' = h1"
      then have "h' = h @ concat [c # cs]" using h1 by simp
      moreover have "map first_visit [c # cs] = map (visit_of root) (take 1 (j # rest))"
        using fv by simp
      ultimately show ?thesis by blast
    next
      assume "root_loop rec root rest r1 h1 = Some (r, h')"
      from Cons.IH [OF this] obtain segs k where
        s: "h' = h1 @ concat segs" "map first_visit segs = map (visit_of root) (take k rest)"
        by blast
      have "h' = h @ concat ((c # cs) # segs)" using s h1 by simp
      moreover have "map first_visit ((c # cs) # segs)
          = map (visit_of root) (take (Suc k) (j # rest))"
        using fv s by simp
      ultimately show ?thesis by blast
    qed
  qed
qed

lemma calls_of_entries_first_visit:
  assumes "\<And>hist e seg. P hist e seg \<Longrightarrow> first_visit seg = visit_of dir e"
  shows "calls_of_entries P hist es segs \<Longrightarrow>
         map first_visit segs = map (visit_of dir) (take (length segs) es)"
proof (induction es arbitrary: hist segs)
  case Nil
  then show ?case by (cases segs) simp_all
next
  case (Cons e es)
  show ?case
  proof (cases segs)
    case Nil
    then show ?thesis by simp
  next
    case segs: (Cons seg segs')
    with Cons.prems have "P hist e seg" "calls_of_entries P (hist @ seg) es segs'" by simp_all
    then show ?thesis using segs Cons.IH [of "hist @ seg" segs'] assms by simp
  qed
qed

lemma walk_loop_pinned:
  assumes rec_ext: "\<And>p i h r h'. rec p i h = Some (r, h') \<Longrightarrow> \<exists>cs. h' = h @ cs"
  shows "walk_loop rec (observe f) path infos err h = Some (r, h') \<Longrightarrow>
         err = None \<or> err = Some SkipDir \<Longrightarrow>
         \<exists>segs. h' = h @ concat segs \<and>
           calls_of_entries (\<lambda>hist e seg.
               (case rec (Join path (Name e)) e hist of
                  None \<Rightarrow> False | Some (r, h2) \<Rightarrow> h2 = hist @ seg)
               \<or> reported f path hist e seg)
             h (filter not_dot infos) segs"
  (is "_ \<Longrightarrow> _ \<Longrightarrow> \<exists>segs. _ \<and> calls_of_entries ?P h _ segs")
proof (induction infos arbitrary: err h)
  case Nil
  then have "h' = h @ concat []" by simp
  moreover have "calls_of_entries ?P h (filter not_dot []) []" by simp
  ultimately show ?case by blast
next
  case (Cons j rest)
  show ?case
  proof (cases "not_dot j")
    case False
    with Cons.prems have "walk_loop rec (observe f) path rest err h = Some (r, h')"
      by (simp add: walk_loop_dot)
    from Cons.IH [OF this Cons.prems(2)] False show ?thesis by simp
  next
    case True
    have step: "\<exists>segs. h' = h @ concat segs \<and> calls_of_entries ?P h (filter not_dot (j # rest)) segs"
      if seg: "?P h j seg"
        and cont: "h' = h @ seg \<or>
          (\<exists>err'. (err' = None \<or> err' = Some SkipDir) \<and>
             walk_loop rec (observe f) path rest err' (h @ seg) = Some (r, h'))"
      for seg
    proof -
      from cont show ?thesis
      proof
        assume "h' = h @ seg"
        then have "h' = h @ concat [seg]" by simp
        moreover have "calls_of_entries ?P h (filter not_dot (j # rest)) [seg]"
          using seg True by simp
        ultimately show ?thesis by blast
      next
        assume "\<exists>err'. (err' = None \<or> err' = Some SkipDir) \<and>
             walk_loop rec (observe f) path rest err' (h @ seg) = Some (r, h')"
        then obtain err' where e: "err' = None \<or> err' = Some SkipDir"
          and w: "walk_loop rec (observe f) path rest err' (h @ seg) = Some (r, h')" by blast
        from Cons.IH [OF w e] obtain segs where
          a: "h' = (h @ seg) @ concat segs"
          and b: "calls_of_entries ?P (h @ seg) (filter not_dot rest) segs"
          by blast
        have "h' = h @ concat (seg # segs)" using a by simp
        moreover have "calls_of_entries ?P h (filter not_dot (j # rest)) (seg # segs)"
          using b seg True by simp
        ultimately show ?thesis by blast
      qed
    qed
    show ?thesis
    proof (cases "err = None")
      case False
      then have err: "err = Some SkipDir" using Cons.prems(2) by auto
      define c where "c = Call (Join path (Name j)) (Some j) (Some SkipDir)
          (f h (Join path (Name j)) (Some j) (Some SkipDir))"
      have cb: "observe f (Join path (Name j)) (Some j) err h = (c_ret c, h @ [c])"
        by (simp add: observe_eq c_def err)
      have "h' = h @ [c] \<or> walk_loop rec (observe f) path rest err (h @ [c]) = Some (r, h')"
        using Cons.prems(1) walk_loop_err [where fn = "observe f" and rec = rec and rest = rest, OF True False cb]
        by (auto split: if_splits)
      then have "h' = h @ [c] \<or> (\<exists>err'. (err' = None \<or> err' = Some SkipDir) \<and>
             walk_loop rec (observe f) path rest err' (h @ [c]) = Some (r, h'))"
        using err by blast
      moreover have "?P h j [c]" by (simp add: reported_def c_def)
      ultimately show ?thesis by (rule step [rotated])
    next
      case None: True
      show ?thesis
      proof (cases "rec (Join path (Name j)) j h")
        case none: None
        then show ?thesis
          using Cons.prems(1) None
            walk_loop_rec_None [where rec = rec and path = path and s = h, OF True none]
          by simp
      next
        case (Some a)
        obtain r1 h1 where a: "a = (r1, h1)" by (cases a)
        from rec_ext [of "Join path (Name j)" j h r1 h1] Some a
        obtain cs where h1: "h1 = h @ cs" by auto
        have "h' = h1 \<or> walk_loop rec (observe f) path rest None h1 = Some (r, h')
            \<or> walk_loop rec (observe f) path rest (Some SkipDir) h1 = Some (r, h')"
          using Cons.prems(1) None walk_loop_rec [where fn = "observe f" and rec = rec and rest = rest and path = path and s = h
              and ?r1.0 = r1 and ?s1.0 = h1, OF True] Some a
          by (auto split: if_splits)
        then have "h' = h @ cs \<or> (\<exists>err'. (err' = None \<or> err' = Some SkipDir) \<and>
             walk_loop rec (observe f) path rest err' (h @ cs) = Some (r, h'))"
          using h1 by blast
        moreover have "?P h j cs" using Some a h1 by simp
        ultimately show ?thesis by (rule step [rotated])
      qed
    qed
  qed
qed

lemma root_loop_pinned:
  assumes rec_ext: "\<And>p i h r h'. rec p i h = Some (r, h') \<Longrightarrow> \<exists>cs. h' = h @ cs"
  shows "root_loop rec root infos err h = Some (r, h') \<Longrightarrow>
         \<exists>segs. h' = h @ concat segs \<and>
           calls_of_entries (\<lambda>hist e seg.
               (case rec (Join root (Name e)) e hist of
                  None \<Rightarrow> False | Some (r, h2) \<Rightarrow> h2 = hist @ seg))
             h infos segs"
  (is "_ \<Longrightarrow> \<exists>segs. _ \<and> calls_of_entries ?P h _ segs")
proof (induction infos arbitrary: err h)
  case Nil
  then have "h' = h @ concat []" by simp
  moreover have "calls_of_entries ?P h [] []" by simp
  ultimately show ?case by blast
next
  case (Cons j rest)
  show ?case
  proof (cases "rec (Join root (Name j)) j h")
    case None
    with Cons.prems show ?thesis by (simp add: Let_def)
  next
    case (Some a)
    obtain r1 h1 where a: "a = (r1, h1)" by (cases a)
    from rec_ext [of "Join root (Name j)" j h r1 h1] Some a
    obtain cs where h1: "h1 = h @ cs" by auto
    have P: "?P h j cs" using Some a h1 by simp
    have "h' = h1 \<or> root_loop rec root rest r1 h1 = Some (r, h')"
      using Cons.prems Some a by (auto simp: Let_def split: if_splits)
    then show ?thesis
    proof
      assume "h' = h1"
      then have "h' = h @ concat [cs]" using h1 by simp
      moreover have "calls_of_entries ?P h (j # rest) [cs]" using P by simp
      ultimately show ?thesis by blast
    next
      assume "root_loop rec root rest r1 h1 = Some (r, h')"
      from Cons.IH [OF this] obtain segs where
        s: "h' = h1 @ concat segs" "calls_of_entries ?P h1 rest segs"
        by blast
      have "h' = h @ concat (cs # segs)" using s h1 by simp
      moreover have "calls_of_entries ?P h (j # rest) (cs # segs)" using P s h1 by simp
      ultimately show ?thesis by blast
    qed
  qed
qed

lemma walk_extends: "walk L n fs p i (observe f) h = Some (r, h') \<Longrightarrow> \<exists>cs. h' = h @ cs"
  using walk_first_call [of L n fs p i f h r h'] by blast

lemma walked_first_visit: "walked L n fs f dir hist e seg \<Longrightarrow> first_visit seg = visit_of dir e"
proof -
  assume "walked L n fs f dir hist e seg"
  then obtain r where "walk L n fs (Join dir (Name e)) e (observe f) hist = Some (r, hist @ seg)"
    by (auto simp: walked_def split: option.splits)
  from walk_first_call [OF this] obtain c cs where
    "seg = c # cs" "c_path c = Join dir (Name e)" "c_info c = Some e" by auto
  then show ?thesis by (simp add: visit_of_def)
qed

lemma reported_first_visit: "reported f dir hist e seg \<Longrightarrow> first_visit seg = visit_of dir e"
  by (simp add: reported_def visit_of_def)

lemma walk_dir_pinned:
  assumes "IsDir i" "walk L (Suc n) fs dir i (observe f) h = Some (r, h')"
  shows "\<exists>c segs. h' = h @ c # concat segs \<and> c_path c = dir \<and> c_info c = Some i \<and>
           calls_of_entries (\<lambda>hist e seg. walked L n fs f dir hist e seg \<or> reported f dir hist e seg)
             (h @ [c]) (filter not_dot (infos_of (readDirInfos L fs dir))) segs"
proof -
  define e where "e = err_of (readDirInfos L fs dir)"
  define c where "c = Call dir (Some i) e (f h dir (Some i) e)"
  have c: "c_path c = dir" "c_info c = Some i" by (simp_all add: c_def)
  have cb: "observe f dir (Some i) (err_of (readDirInfos L fs dir)) h = (f h dir (Some i) e, h @ [c])"
    by (simp add: observe_eq e_def c_def)
  have "h' = h @ [c] \<or>
        walk_loop (\<lambda>p i s'. walk L n fs p i (observe f) s') (observe f) dir
          (infos_of (readDirInfos L fs dir)) None (h @ [c]) = Some (r, h')"
    using assms(2) walk_Suc_dir [where fn = "observe f", OF assms(1) cb, of n]
    by (auto simp del: walk.simps split: if_splits)
  then show ?thesis
  proof
    assume "h' = h @ [c]"
    then have "h' = h @ c # concat []" by simp
    moreover have "calls_of_entries (\<lambda>hist e seg. walked L n fs f dir hist e seg \<or> reported f dir hist e seg)
             (h @ [c]) (filter not_dot (infos_of (readDirInfos L fs dir))) []"
      by simp
    ultimately show ?thesis using c by blast
  next
    assume "walk_loop (\<lambda>p i s'. walk L n fs p i (observe f) s') (observe f) dir
          (infos_of (readDirInfos L fs dir)) None (h @ [c]) = Some (r, h')"
    then have "\<exists>segs. h' = (h @ [c]) @ concat segs \<and>
           calls_of_entries (\<lambda>hist e seg.
               (case walk L n fs (Join dir (Name e)) e (observe f) hist of
                  None \<Rightarrow> False | Some (r, h2) \<Rightarrow> h2 = hist @ seg)
               \<or> reported f dir hist e seg)
             (h @ [c]) (filter not_dot (infos_of (readDirInfos L fs dir))) segs"
      by (rule walk_loop_pinned [rotated]) (simp, rule walk_extends)
    then show ?thesis using c by (auto simp: walked_def [abs_def])
  qed
qed


lemma sorted_readDirInfos:
  "sorts_by L (name_cmp L) \<Longrightarrow>
     sorted (map (\<lambda>j. ToLower L (Name j)) (infos_of (readDirInfos L fs dir)))"
  by (cases "fs dir") (simp_all add: readDirInfos_def sorts_by_name_cmp_sorted)

lemma mset_readDirInfos:
  "sorts_by L (name_cmp L) \<Longrightarrow>
     mset (infos_of (readDirInfos L fs dir)) = mset (infos_of (fs dir))"
  by (cases "fs dir") (simp_all add: readDirInfos_def sorts_by_mset)

lemma sorted_take_filter:
  "sorted (map key xs) \<Longrightarrow> sorted (map key (take k (filter P xs)))"
proof -
  assume "sorted (map key xs)"
  then have "sorted (map key (filter P xs))" by (rule sorted_filter)
  then have "sorted (take k (map key (filter P xs)))" by (rule sorted_wrt_take)
  then show ?thesis by (simp add: take_map)
qed

lemma sorted_take_map:
  "sorted (map key xs) \<Longrightarrow> sorted (map key (take k xs))"
  using sorted_take_filter [of key xs k "\<lambda>x. True"] by simp

section \<open>Which entries reach the callback\<close>

lemma walk_loop_real_entries:
  assumes rec_real: "\<And>p i h r h'. not_dot i \<Longrightarrow> rec p i h = Some (r, h') \<Longrightarrow>
            \<exists>cs. h' = h @ cs \<and> list_all names_a_real_entry cs"
  shows "walk_loop rec (observe f) path infos err h = Some (r, h') \<Longrightarrow>
         \<exists>cs. h' = h @ cs \<and> list_all names_a_real_entry cs"
proof (induction infos arbitrary: err h)
  case Nil
  then show ?case by simp
next
  case (Cons j rest)
  show ?case
  proof (cases "not_dot j")
    case False
    with Cons.prems have "walk_loop rec (observe f) path rest err h = Some (r, h')"
      by (simp add: walk_loop_dot)
    from Cons.IH [OF this] show ?thesis .
  next
    case True
    have step: "\<exists>cs. h' = h @ cs \<and> list_all names_a_real_entry cs"
      if seg: "list_all names_a_real_entry seg"
        and cont: "h' = h @ seg \<or> (\<exists>err'. walk_loop rec (observe f) path rest err' (h @ seg) = Some (r, h'))"
      for seg
    proof -
      from cont show ?thesis
      proof
        assume "h' = h @ seg"
        then show ?thesis using seg by blast
      next
        assume "\<exists>err'. walk_loop rec (observe f) path rest err' (h @ seg) = Some (r, h')"
        then obtain err' where "walk_loop rec (observe f) path rest err' (h @ seg) = Some (r, h')" ..
        from Cons.IH [OF this] obtain cs where
          "h' = (h @ seg) @ cs" "list_all names_a_real_entry cs" by blast
        then have "h' = h @ (seg @ cs)" "list_all names_a_real_entry (seg @ cs)"
          using seg by simp_all
        then show ?thesis by blast
      qed
    qed
    show ?thesis
    proof (cases "err = None")
      case False
      obtain r2 h2 where cb: "observe f (Join path (Name j)) (Some j) err h = (r2, h2)"
        by (cases "observe f (Join path (Name j)) (Some j) err h")
      have h2: "h2 = h @ [Call (Join path (Name j)) (Some j) err r2]"
        using cb by (rule observe_call)
      define c where "c = Call (Join path (Name j)) (Some j) err r2"
      have "h' = h2 \<or> walk_loop rec (observe f) path rest err h2 = Some (r, h')"
        using Cons.prems walk_loop_err [where fn = "observe f" and rec = rec and rest = rest, OF True False cb]
        by (auto split: if_splits)
      then have "h' = h @ [c] \<or> (\<exists>err'. walk_loop rec (observe f) path rest err' (h @ [c]) = Some (r, h'))"
        using h2 by (auto simp: c_def)
      moreover have "list_all names_a_real_entry [c]"
        using True by (simp add: c_def names_a_real_entry_def)
      ultimately show ?thesis using step [of "[c]"] by blast
    next
      case None: True
      show ?thesis
      proof (cases "rec (Join path (Name j)) j h")
        case none: None
        then show ?thesis
          using Cons.prems None walk_loop_rec_None [where rec = rec and path = path and s = h, OF True none]
          by simp
      next
        case (Some a)
        obtain r1 h1 where a: "a = (r1, h1)" by (cases a)
        from rec_real [OF True, of "Join path (Name j)" h r1 h1] Some a
        obtain cs where h1: "h1 = h @ cs" "list_all names_a_real_entry cs"
          by auto
        have "h' = h1 \<or> (\<exists>err'. walk_loop rec (observe f) path rest err' h1 = Some (r, h'))"
          using Cons.prems None walk_loop_rec [where fn = "observe f" and rec = rec and rest = rest and path = path and s = h
              and ?r1.0 = r1 and ?s1.0 = h1, OF True] Some a
          by (auto split: if_splits)
        then have "h' = h @ cs \<or> (\<exists>err'. walk_loop rec (observe f) path rest err' (h @ cs) = Some (r, h'))"
          using h1 by simp
        then show ?thesis using step [of cs] h1(2) by blast
      qed
    qed
  qed
qed

lemma walk_real_entries:
  "walk L n fs p i (observe f) h = Some (r, h') \<Longrightarrow>
   \<exists>c cs. h' = h @ c # cs \<and> c_path c = p \<and> c_info c = Some i \<and> list_all names_a_real_entry cs"
proof (induction n arbitrary: p i h r h')
  case 0
  then show ?case by simp
next
  case (Suc n)
  have rec_real: "\<exists>cs. h' = h @ cs \<and> list_all names_a_real_entry cs"
    if "not_dot i" "walk L n fs p i (observe f) h = Some (r, h')" for p i h r h'
  proof -
    from Suc.IH [OF that(2)] obtain c cs where
      "h' = h @ c # cs" "c_info c = Some i" "list_all names_a_real_entry cs" by blast
    then have "h' = h @ (c # cs)" "list_all names_a_real_entry (c # cs)"
      using that(1) by (simp_all add: names_a_real_entry_def)
    then show ?thesis by blast
  qed
  show ?case
  proof (cases "IsDir i")
    case False
    with Suc.prems have "h' = h @ [Call p (Some i) None (f h p (Some i) None)]"
      by (auto simp add: walk_Suc_file observe_eq simp del: walk.simps)
    then show ?thesis by simp
  next
    case True
    define e where "e = err_of (readDirInfos L fs p)"
    define c where "c = Call p (Some i) e (f h p (Some i) e)"
    have c: "c_path c = p" "c_info c = Some i" by (simp_all add: c_def)
    have cb: "observe f p (Some i) (err_of (readDirInfos L fs p)) h = (f h p (Some i) e, h @ [c])"
      by (simp add: observe_eq e_def c_def)
    have "h' = h @ [c] \<or>
          walk_loop (\<lambda>p i s'. walk L n fs p i (observe f) s') (observe f) p
            (infos_of (readDirInfos L fs p)) None (h @ [c]) = Some (r, h')"
      using Suc.prems walk_Suc_dir [where fn = "observe f", OF True cb, of n]
      by (auto simp del: walk.simps split: if_splits)
    then show ?thesis
    proof
      assume "h' = h @ [c]"
      then show ?thesis using c by simp
    next
      assume "walk_loop (\<lambda>p i s'. walk L n fs p i (observe f) s') (observe f) p
            (infos_of (readDirInfos L fs p)) None (h @ [c]) = Some (r, h')"
      then obtain cs where "h' = (h @ [c]) @ cs" "list_all names_a_real_entry cs"
        using walk_loop_real_entries [where rec = "\<lambda>p i s'. walk L n fs p i (observe f) s'"]
          rec_real
        by blast
      then show ?thesis using c by simp
    qed
  qed
qed

lemma walk_loop_nil_result:
  assumes rec_nil: "\<And>p i h r h'. rec p i h = Some (r, h') \<Longrightarrow> r = None"
  shows "walk_loop rec (observe always_nil) path infos None h = Some (r, h') \<Longrightarrow> r = None"
proof (induction infos arbitrary: h)
  case Nil
  then show ?case by simp
next
  case (Cons j rest)
  show ?case
  proof (cases "not_dot j")
    case False
    with Cons.prems Cons.IH show ?thesis by (simp add: walk_loop_dot)
  next
    case True
    show ?thesis
    proof (cases "rec (Join path (Name j)) j h")
      case none: None
      then show ?thesis
        using Cons.prems walk_loop_rec_None [where rec = rec and path = path and s = h, OF True none]
        by simp
    next
      case (Some a)
      obtain r1 h1 where a: "a = (r1, h1)" by (cases a)
      have "r1 = None" using rec_nil Some a by blast
      then have "walk_loop rec (observe always_nil) path rest None h1 = Some (r, h')"
        using Cons.prems walk_loop_rec [where fn = "observe always_nil" and rec = rec and rest = rest
            and path = path and s = h and ?r1.0 = r1 and ?s1.0 = h1, OF True] Some a
        by simp
      then show ?thesis by (rule Cons.IH)
    qed
  qed
qed

lemma walk_nil_result:
  "walk L n fs p i (observe always_nil) h = Some (r, h') \<Longrightarrow> r = None"
proof (induction n arbitrary: p i h r h')
  case 0
  then show ?case by simp
next
  case (Suc n)
  show ?case
  proof (cases "IsDir i")
    case False
    with Suc.prems show ?thesis
      by (auto simp add: walk_Suc_file observe_eq always_nil_def simp del: walk.simps)
  next
    case True
    define e where "e = err_of (readDirInfos L fs p)"
    define c where "c = Call p (Some i) e None"
    have cb: "observe always_nil p (Some i) (err_of (readDirInfos L fs p)) h = (None, h @ [c])"
      by (simp add: observe_eq e_def c_def always_nil_def)
    have "r = None \<or>
          walk_loop (\<lambda>p i s'. walk L n fs p i (observe always_nil) s') (observe always_nil) p
            (infos_of (readDirInfos L fs p)) None (h @ [c]) = Some (r, h')"
      using Suc.prems walk_Suc_dir [where fn = "observe always_nil", OF True cb, of n]
      by (auto simp del: walk.simps split: if_splits)
    then show ?thesis
      using walk_loop_nil_result [where rec = "\<lambda>p i s'. walk L n fs p i (observe always_nil) s'"]
        Suc.IH
      by blast
  qed
qed

lemma root_loop_visits_all:
  assumes rec_first: "\<And>p i h r h'. rec p i h = Some (r, h') \<Longrightarrow>
            \<exists>c cs. h' = h @ c # cs \<and> c_path c = p \<and> c_info c = Some i"
    and rec_nil: "\<And>p i h r h'. rec p i h = Some (r, h') \<Longrightarrow> r = None"
  shows "root_loop rec root infos err h = Some (r, h') \<Longrightarrow>
         \<exists>segs. h' = h @ concat segs \<and> map first_visit segs = map (visit_of root) infos"
proof (induction infos arbitrary: err h)
  case Nil
  then have "h' = h @ concat []" by simp
  then show ?case by auto
next
  case (Cons j rest)
  show ?case
  proof (cases "rec (Join root (Name j)) j h")
    case None
    with Cons.prems show ?thesis by (simp add: Let_def)
  next
    case (Some a)
    obtain r1 h1 where a: "a = (r1, h1)" by (cases a)
    from rec_first [of "Join root (Name j)" j h r1 h1] Some a
    obtain c cs where h1: "h1 = h @ c # cs" "c_path c = Join root (Name j)" "c_info c = Some j"
      by auto
    have fv: "first_visit (c # cs) = visit_of root j"
      using h1 by (simp add: visit_of_def)
    have "r1 = None" using rec_nil Some a by blast
    then have "root_loop rec root rest r1 h1 = Some (r, h')"
      using Cons.prems Some a by (simp add: Let_def)
    from Cons.IH [OF this] obtain segs where
      s: "h' = h1 @ concat segs" "map first_visit segs = map (visit_of root) rest"
      by blast
    have "h' = h @ concat ((c # cs) # segs)" using s h1 by simp
    moreover have "map first_visit ((c # cs) # segs) = map (visit_of root) (j # rest)"
      using fv s by simp
    ultimately show ?thesis by blast
  qed
qed

section \<open>The sentinels\<close>

text \<open>
  Inside \<open>walk\<close>, a \<^verbatim>\<open>SkipAll\<close> that the callback returns is the result of the walk and
  no call follows it. When the root can be read, \<open>GenericWalk\<close> turns it into \<^verbatim>\<open>nil\<close>.
\<close>

lemma halts_append:
  "halts_at_SkipAll e1 r1 xs \<Longrightarrow> r1 \<noteq> e1 \<Longrightarrow> halts_at_SkipAll e r ys \<Longrightarrow>
   halts_at_SkipAll e r (xs @ ys)"
  by (induction xs) (auto split: if_splits)

lemma halts_weaken:
  "halts_at_SkipAll e1 r1 xs \<Longrightarrow> halts_at_SkipAll e e xs"
  by (induction xs) (auto split: if_splits)

lemma walk_loop_halts:
  assumes rec_halts: "\<And>p i h r h'. rec p i h = Some (r, h') \<Longrightarrow>
            \<exists>new. h' = h @ new \<and> halts_at_SkipAll (Some SkipAll) r new"
  shows "walk_loop rec (observe f) path infos err h = Some (r, h') \<Longrightarrow>
         \<exists>new. h' = h @ new \<and> halts_at_SkipAll (Some SkipAll) r new"
proof (induction infos arbitrary: err h)
  case Nil
  then show ?case by simp
next
  case (Cons j rest)
  show ?case
  proof (cases "not_dot j")
    case False
    with Cons.prems have "walk_loop rec (observe f) path rest err h = Some (r, h')"
      by (simp add: walk_loop_dot)
    from Cons.IH [OF this] show ?thesis .
  next
    case True
    have step: "\<exists>new. h' = h @ new \<and> halts_at_SkipAll (Some SkipAll) r new"
      if seg: "halts_at_SkipAll (Some SkipAll) r1 seg"
        and cont: "(h' = h @ seg \<and> r = r1)
                   \<or> (r1 \<noteq> Some SkipAll
                       \<and> (\<exists>err'. walk_loop rec (observe f) path rest err' (h @ seg) = Some (r, h')))"
      for seg r1
    proof -
      from cont show ?thesis
      proof
        assume "h' = h @ seg \<and> r = r1"
        then show ?thesis using seg by blast
      next
        assume a: "r1 \<noteq> Some SkipAll
                   \<and> (\<exists>err'. walk_loop rec (observe f) path rest err' (h @ seg) = Some (r, h'))"
        then obtain err' where "walk_loop rec (observe f) path rest err' (h @ seg) = Some (r, h')"
          by blast
        from Cons.IH [OF this] obtain new where
          new: "h' = (h @ seg) @ new" "halts_at_SkipAll (Some SkipAll) r new" by blast
        from a have ne: "r1 \<noteq> Some SkipAll" by simp
        have "halts_at_SkipAll (Some SkipAll) r (seg @ new)"
          using seg ne new(2) by (rule halts_append)
        then show ?thesis using new(1) by auto
      qed
    qed
    show ?thesis
    proof (cases "err = None")
      case False
      obtain r2 h2 where cb: "observe f (Join path (Name j)) (Some j) err h = (r2, h2)"
        by (cases "observe f (Join path (Name j)) (Some j) err h")
      define c where "c = Call (Join path (Name j)) (Some j) err r2"
      have h2: "h2 = h @ [c]"
        using observe_call [OF cb] by (simp add: c_def)
      have "(h' = h2 \<and> r = r2)
            \<or> (r2 \<noteq> Some SkipAll \<and> walk_loop rec (observe f) path rest err h2 = Some (r, h'))"
        using Cons.prems walk_loop_err [where fn = "observe f" and rec = rec and rest = rest, OF True False cb]
        by (auto split: if_splits)
      then have "(h' = h @ [c] \<and> r = r2)
            \<or> (r2 \<noteq> Some SkipAll
                \<and> (\<exists>err'. walk_loop rec (observe f) path rest err' (h @ [c]) = Some (r, h')))"
        using h2 by auto
      moreover have "halts_at_SkipAll (Some SkipAll) r2 [c]"
        by (simp add: c_def)
      ultimately show ?thesis using step [of r2 "[c]"] by blast
    next
      case None: True
      show ?thesis
      proof (cases "rec (Join path (Name j)) j h")
        case none: None
        then show ?thesis
          using Cons.prems None walk_loop_rec_None [where rec = rec and path = path and s = h, OF True none]
          by simp
      next
        case (Some a)
        obtain r1 h1 where a: "a = (r1, h1)" by (cases a)
        from rec_halts [of "Join path (Name j)" j h r1 h1] Some a
        obtain seg where h1: "h1 = h @ seg" "halts_at_SkipAll (Some SkipAll) r1 seg"
          by auto
        have "(h' = h1 \<and> r = r1)
              \<or> (r1 \<noteq> Some SkipAll
                  \<and> (\<exists>err'. walk_loop rec (observe f) path rest err' h1 = Some (r, h')))"
          using Cons.prems None walk_loop_rec [where fn = "observe f" and rec = rec and rest = rest
              and path = path and s = h and ?r1.0 = r1 and ?s1.0 = h1, OF True] Some a
          by (auto split: if_splits)
        then show ?thesis using step [of r1 seg] h1 by blast
      qed
    qed
  qed
qed

lemma walk_halts:
  "walk L n fs p i (observe f) h = Some (r, h') \<Longrightarrow>
   \<exists>new. h' = h @ new \<and> halts_at_SkipAll (Some SkipAll) r new"
proof (induction n arbitrary: p i h r h')
  case 0
  then show ?case by simp
next
  case (Suc n)
  show ?case
  proof (cases "IsDir i")
    case False
    with Suc.prems have "h' = h @ [Call p (Some i) None r]"
      by (auto simp add: walk_Suc_file observe_eq simp del: walk.simps)
    moreover have "halts_at_SkipAll (Some SkipAll) r [Call p (Some i) None r]" by simp
    ultimately show ?thesis by blast
  next
    case True
    define e where "e = err_of (readDirInfos L fs p)"
    define r1 where "r1 = f h p (Some i) e"
    define c where "c = Call p (Some i) e r1"
    have cb: "observe f p (Some i) (err_of (readDirInfos L fs p)) h = (r1, h @ [c])"
      by (simp add: observe_eq e_def c_def r1_def)
    have "(h' = h @ [c] \<and> r = r1) \<or>
          (r1 = None \<and> walk_loop (\<lambda>p i s'. walk L n fs p i (observe f) s') (observe f) p
            (infos_of (readDirInfos L fs p)) None (h @ [c]) = Some (r, h'))"
      using Suc.prems walk_Suc_dir [where fn = "observe f", OF True cb, of n]
      by (auto simp del: walk.simps split: if_splits)
    then show ?thesis
    proof
      assume "h' = h @ [c] \<and> r = r1"
      moreover have "halts_at_SkipAll (Some SkipAll) r1 [c]" by (simp add: c_def)
      ultimately show ?thesis by blast
    next
      assume a: "r1 = None \<and> walk_loop (\<lambda>p i s'. walk L n fs p i (observe f) s') (observe f) p
            (infos_of (readDirInfos L fs p)) None (h @ [c]) = Some (r, h')"
      then obtain new where new: "h' = (h @ [c]) @ new" "halts_at_SkipAll (Some SkipAll) r new"
        using walk_loop_halts [where rec = "\<lambda>p i s'. walk L n fs p i (observe f) s'"] Suc.IH
        by blast
      have "halts_at_SkipAll (Some SkipAll) r (c # new)"
        using a new(2) by (simp add: c_def)
      then show ?thesis using new(1) by auto
    qed
  qed
qed

lemma root_loop_halts:
  assumes rec_halts: "\<And>p i h r h'. rec p i h = Some (r, h') \<Longrightarrow>
            \<exists>new. h' = h @ new \<and> halts_at_SkipAll (Some SkipAll) r new"
  shows "root_loop rec root infos err h = Some (r, h') \<Longrightarrow>
         \<exists>new. h' = h @ new \<and> halts_at_SkipAll None r new"
proof (induction infos arbitrary: err h)
  case Nil
  then show ?case by simp
next
  case (Cons j rest)
  show ?case
  proof (cases "rec (Join root (Name j)) j h")
    case None
    with Cons.prems show ?thesis by (simp add: Let_def)
  next
    case (Some a)
    obtain r1 h1 where a: "a = (r1, h1)" by (cases a)
    from rec_halts [of "Join root (Name j)" j h r1 h1] Some a
    obtain seg where h1: "h1 = h @ seg" "halts_at_SkipAll (Some SkipAll) r1 seg"
      by auto
    show ?thesis
    proof (cases "r1 = Some SkipDir \<or> r1 = Some SkipAll")
      case True
      with Cons.prems Some a have "h' = h1" "r = None" by (auto simp: Let_def)
      moreover have "halts_at_SkipAll None None seg" using h1(2) by (rule halts_weaken)
      ultimately show ?thesis using h1(1) by auto
    next
      case False
      with Cons.prems Some a have "root_loop rec root rest r1 h1 = Some (r, h')"
        by (auto simp: Let_def)
      from Cons.IH [OF this] obtain new where
        new: "h' = h1 @ new" "halts_at_SkipAll None r new" by blast
      from False have ne: "r1 \<noteq> Some SkipAll" by simp
      have "halts_at_SkipAll None r (seg @ new)"
        using h1(2) ne new(2) by (rule halts_append)
      then show ?thesis using new(1) h1(1) by auto
    qed
  qed
qed

lemma SkipAll_ends_walk_when_root_is_read:
  assumes "fs root = Inr l" "GenericWalk L n fs root (observe f) h = Some (r, h')"
  shows "\<exists>new. h' = h @ new \<and> halts_at_SkipAll None r new"
proof -
  from assms have "root_loop (\<lambda>p i s'. walk L n fs p i (observe f) s') root
      (SortFunc L (name_cmp L) l) None h = Some (r, h')"
    by (simp add: GenericWalk_def readDirInfos_def)
  then show ?thesis
  proof (rule root_loop_halts [rotated])
    show "\<exists>new. h2 = h1 @ new \<and> halts_at_SkipAll (Some SkipAll) r1 new"
      if "walk L n fs q j (observe f) h1 = Some (r1, h2)" for q j h1 r1 h2
      using that by (rule walk_halts)
  qed
qed

text \<open>
  Once the variable \<^verbatim>\<open>err\<close> of \<^verbatim>\<open>walk\<close> holds an error, the loop makes no recursive
  call any more: what it does is the same for every \<open>rec\<close>. A directory for which the
  callback returns an error is left at once.
\<close>

lemma walk_loop_after_SkipDir:
  "walk_loop rec fn path infos (Some e) s = walk_loop rec' fn path infos (Some e) s"
proof (induction infos arbitrary: s)
  case Nil
  then show ?case by simp
next
  case (Cons j rest)
  show ?case
  proof (cases "not_dot j")
    case False
    then show ?thesis using Cons.IH by (simp add: walk_loop_dot)
  next
    case True
    obtain r2 s2 where cb: "fn (Join path (Name j)) (Some j) (Some e) s = (r2, s2)"
      by (cases "fn (Join path (Name j)) (Some j) (Some e) s")
    have e: "Some e \<noteq> None" by simp
    show ?thesis
      using walk_loop_err [where rec = rec and rest = rest and fn = fn and err = "Some e", OF True e cb]
        walk_loop_err [where rec = rec' and rest = rest and fn = fn and err = "Some e", OF True e cb]
        Cons.IH
      by simp
  qed
qed

lemma walk_stops_at_callback_error:
  assumes "IsDir i" "fn p (Some i) (err_of (readDirInfos L fs p)) s = (r1, s1)" "r1 \<noteq> None"
  shows "walk L (Suc n) fs p i fn s = Some (r1, s1)"
  using walk_Suc_dir [where fn = fn and n = n, OF assms(1,2)] assms(3)
  by (simp del: walk.simps)

section \<open>Fuel\<close>

text \<open>A walk that returns within some depth returns the same value within any greater
  depth: the bound on the depth is not seen in the result.\<close>

lemma walk_loop_fuel_mono:
  assumes "\<And>p i s r. rec p i s = Some r \<Longrightarrow> rec' p i s = Some r"
  shows "walk_loop rec fn path infos err s = Some r \<Longrightarrow> walk_loop rec' fn path infos err s = Some r"
proof (induction infos arbitrary: err s)
  case Nil
  then show ?case by simp
next
  case (Cons j rest)
  show ?case
  proof (cases "rec (Join path (Name j)) j s")
    case None
    with Cons.prems Cons.IH show ?thesis
      by (auto simp: walk_loop.simps(2) Let_def split: if_splits prod.splits)
  next
    case (Some a)
    then have "rec' (Join path (Name j)) j s = Some a" by (rule assms)
    with Some Cons.prems Cons.IH show ?thesis
      by (auto simp: walk_loop.simps(2) Let_def split: if_splits prod.splits)
  qed
qed

lemma walk_fuel_Suc: "walk L n fs p i fn s = Some r \<Longrightarrow> walk L (Suc n) fs p i fn s = Some r"
proof (induction n arbitrary: p i s r)
  case 0
  then show ?case by simp
next
  case (Suc n)
  have mono: "walk_loop (\<lambda>p i s'. walk L n fs p i fn s') fn q infos e s' = Some r'
        \<Longrightarrow> walk_loop (\<lambda>p i s'. walk L (Suc n) fs p i fn s') fn q infos e s' = Some r'"
    for q infos e s' r'
    by (rule walk_loop_fuel_mono [where rec = "\<lambda>p i s'. walk L n fs p i fn s'"]) (rule Suc.IH)
  from Suc.prems have "(if IsDir i then
        (let r = readDirInfos L fs p; infos = infos_of r; err = err_of r
         in case fn p (Some i) err s of
              (err1, s1) \<Rightarrow>
                if err \<noteq> None \<or> err1 \<noteq> None then Some (err1, s1)
                else walk_loop (\<lambda>p i s'. walk L n fs p i fn s') fn p infos err s1)
      else Some (fn p (Some i) None s)) = Some r"
    by (simp only: walk.simps(2))
  then have "(if IsDir i then
        (let r = readDirInfos L fs p; infos = infos_of r; err = err_of r
         in case fn p (Some i) err s of
              (err1, s1) \<Rightarrow>
                if err \<noteq> None \<or> err1 \<noteq> None then Some (err1, s1)
                else walk_loop (\<lambda>p i s'. walk L (Suc n) fs p i fn s') fn p infos err s1)
      else Some (fn p (Some i) None s)) = Some r"
    by (auto simp: Let_def simp del: walk.simps split: if_splits prod.splits intro: mono)
  then show ?case by (subst walk.simps(2))
qed

lemma walk_fuel_mono: "walk L n fs p i fn s = Some r \<Longrightarrow> n \<le> m \<Longrightarrow> walk L m fs p i fn s = Some r"
  by (induction m) (auto simp: le_Suc_eq walk_fuel_Suc simp del: walk.simps)

lemma root_loop_fuel_mono:
  assumes "\<And>p i s r. rec p i s = Some r \<Longrightarrow> rec' p i s = Some r"
  shows "root_loop rec root infos err s = Some r \<Longrightarrow> root_loop rec' root infos err s = Some r"
proof (induction infos arbitrary: err s)
  case Nil
  then show ?case by simp
next
  case (Cons j rest)
  show ?case
  proof (cases "rec (Join root (Name j)) j s")
    case None
    with Cons.prems show ?thesis by (simp add: Let_def)
  next
    case (Some a)
    then have "rec' (Join root (Name j)) j s = Some a" by (rule assms)
    with Some Cons.prems Cons.IH show ?thesis
      by (auto simp: Let_def split: if_splits prod.splits)
  qed
qed

lemma GenericWalk_fuel_mono:
  "GenericWalk L n fs root fn s = Some r \<Longrightarrow> n \<le> m \<Longrightarrow> GenericWalk L m fs root fn s = Some r"
  unfolding GenericWalk_def
  by (auto split: sum.splits
      intro: root_loop_fuel_mono [where rec = "\<lambda>p i s'. walk L n fs p i fn s'"] walk_fuel_mono)

text \<open>On directories nested without end the walk returns within no depth: the bound on the
  depth is what a walk that does not return runs into.\<close>

lemma walk_endless:
  "walk ascii_lib n endless_fs p (FileInfo ''a'' True) (observe always_nil) h = None"
proof (induction n arbitrary: p h)
  case 0
  show ?case by simp
next
  case (Suc n)
  have rd: "readDirInfos ascii_lib endless_fs p = Inr [FileInfo ''a'' True]"
    by (simp add: readDirInfos_def endless_fs_def ascii_lib_def insertion_sort_def)
  have cb: "observe always_nil p (Some (FileInfo ''a'' True)) (err_of (readDirInfos ascii_lib endless_fs p)) h
      = (None, h @ [Call p (Some (FileInfo ''a'' True)) None None])"
    by (simp add: rd observe_eq always_nil_def)
  have nd: "not_dot (FileInfo ''a'' True)" by (simp add: not_dot_def)
  have "walk_loop (\<lambda>p i s'. walk ascii_lib n endless_fs p i (observe always_nil) s') (observe always_nil) p
      [FileInfo ''a'' True] None (h @ [Call p (Some (FileInfo ''a'' True)) None None]) = None"
    by (rule walk_loop_rec_None [OF nd]) (simp add: Suc.IH del: walk.simps)
  then show ?case
    using walk_Suc_dir [where fn = "observe always_nil" and fs = endless_fs and n = n, OF _ cb]
    by (simp add: rd del: walk.simps)
qed

lemma GenericWalk_endless:
  "GenericWalk ascii_lib n endless_fs root (observe always_nil) h = None"
  by (simp add: GenericWalk_def readDirInfos_def endless_fs_def ascii_lib_def insertion_sort_def
      walk_endless [unfolded ascii_lib_def] Let_def
      del: walk.simps)

section \<open>Facts about the examples\<close>

lemma ex_forest_unfolds: "root_unfolds ascii_lib ex_fs ''/'' ex_forest"
  by code_simp

lemma ex_forest_A_unfolds: "unfolds ascii_lib ex_fs (hd ex_forest)"
  by code_simp

lemma ex_forest_height: "forest_height ex_forest = 2"
  by code_simp

lemma ex_forest_A_height: "height (hd ex_forest) = 2"
  by code_simp

lemma ex_forest_ok: "list_all (listings_ok ex_fs) ex_forest"
  by code_simp

lemma Join_root_d: "Join ''/'' ''d'' = ''/d''"
  by code_simp

lemma ex_walk_A:
  "walk ascii_lib 2 ex_fs ''/A'' (FileInfo ''A'' True) (observe always_nil) []
     = Some (None,
         [Call ''/A'' (Some (FileInfo ''A'' True)) None None,
          Call ''/A/X'' (Some (FileInfo ''X'' True)) None None,
          Call ''/A/y'' (Some (FileInfo ''y'' False)) None None])"
  by code_simp

lemma ex_walk_root:
  "GenericWalk ascii_lib 2 ex_fs ''/'' (observe always_nil) []
     = Some (None,
         [Call ''/A'' (Some (FileInfo ''A'' True)) None None,
          Call ''/A/X'' (Some (FileInfo ''X'' True)) None None,
          Call ''/A/y'' (Some (FileInfo ''y'' False)) None None,
          Call ''/b.txt'' (Some (FileInfo ''b.txt'' False)) None None])"
  by code_simp

lemma ex_walk_A2: "walk ascii_lib (Suc 1) ex_fs ''/A'' (FileInfo ''A'' True) (observe always_nil) []
     = Some (None,
         [Call ''/A'' (Some (FileInfo ''A'' True)) None None,
          Call ''/A/X'' (Some (FileInfo ''X'' True)) None None,
          Call ''/A/y'' (Some (FileInfo ''y'' False)) None None])"
  using ex_walk_A by (simp only: Suc_1)

lemma ex_listing_A:
  "infos_of (readDirInfos ascii_lib ex_fs ''/A'')
     = [FileInfo ''.'' True, FileInfo ''..'' True, FileInfo ''X'' True, FileInfo ''y'' False]"
  by code_simp

lemma ex_listing_root:
  "infos_of (readDirInfos ascii_lib ex_fs ''/'') = [FileInfo ''A'' True, FileInfo ''b.txt'' False]"
  by code_simp

lemma dots_walk_root:
  "GenericWalk ascii_lib 2 dots_fs ''/'' (observe always_nil) []
     = Some (None,
         [Call ''/'' (Some (FileInfo ''.'' True)) None None,
          Call ''/f'' (Some (FileInfo ''f'' False)) None None,
          Call ''/'' (Some (FileInfo ''..'' True)) None None,
          Call ''/f'' (Some (FileInfo ''f'' False)) None None,
          Call ''/f'' (Some (FileInfo ''f'' False)) None None])"
  by code_simp

lemma dots_listing_sorted:
  "SortFunc ascii_lib (name_cmp ascii_lib)
       [FileInfo ''f'' False, FileInfo ''..'' True, FileInfo ''.'' True]
     = [FileInfo ''.'' True, FileInfo ''..'' True, FileInfo ''f'' False]"
  by code_simp

section \<open>The round trip of finalize and read\<close>




subsection \<open>extends\<close>












declare write_blocks.simps [simp del]

lemma seal_simps [simp]:
  "img_data (seal c r w) = w_data w"
  "img_inodes (seal c r w) = w_inodes w"
  "img_dirents (seal c r w) = w_dirents w"
  "img_root (seal c r w) = r"
  "img_frags (seal c r w) = w_frags w @ (if w_open w = [] then [] else [store_block c (w_open w)])"
  by (simp_all add: seal_def flush_fragments_def Let_def)

lemma extends_root: "extends c (seal c r w) b \<Longrightarrow> extends c (seal c r' w) b"
  by (simp add: extends_def)










subsection \<open>Resolution of the paths of the staged tree\<close>





subsection \<open>Paths as strings\<close>










text \<open>Reading through the relative symlink of the scenario gives the content of its
  target.\<close>

lemma link_scenario:
  "(case open_file toy_cfg (finalize toy_cfg link_tree) ''/links/relative'' of
      Inl e \<Rightarrow> Inl e
    | Inr handle \<Rightarrow> read toy_cfg (finalize toy_cfg link_tree) handle 0 100)
   = Inr (''target file content'', True)"
  by code_simp

section \<open>The claims\<close>

subsection \<open>C1: a full walk is a pre-order traversal\<close>

text \<open>
  Claim C1. With a callback that returns \<^verbatim>\<open>nil\<close> at every call and listings that all
  succeed, the calls of \<open>GenericWalk\<close> are the pre-order enumeration of the trees of the
  entries that the listing of the root holds (lemma \<open>GenericWalk_nil\<close>): a directory comes
  before the entries it contains, and below the root every real entry is passed once.
  The loop of \<open>GenericWalk\<close> does not leave out the names \<^verbatim>\<open>.\<close> and \<^verbatim>\<open>..\<close> as the loop of
  \<open>walk\<close> does. Where \<open>ReadDir\<close> lists \<^verbatim>\<open>.\<close> for the root, \<open>GenericWalk\<close> walks the root
  as the entry \<^verbatim>\<open>.\<close> of itself and then walks the entries of the root again: on the tree
  \<^verbatim>\<open>/srv/www/index.html\<close> the directory \<^verbatim>\<open>www\<close> and the file \<^verbatim>\<open>index.html\<close> are each
  passed to the callback twice, not once.
\<close>

theorem C1_entries_passed_twice_when_root_lists_dot:
  "GenericWalk ascii_lib 3 site_fs ''/srv'' (observe always_nil) []
     = Some (None,
         [Call ''/srv'' (Some (FileInfo ''.'' True)) None None,
          Call ''/srv/www'' (Some (FileInfo ''www'' True)) None None,
          Call ''/srv/www/index.html'' (Some (FileInfo ''index.html'' False)) None None,
          Call ''/srv/www'' (Some (FileInfo ''www'' True)) None None,
          Call ''/srv/www/index.html'' (Some (FileInfo ''index.html'' False)) None None])"
  by code_simp

subsection \<open>C2: SkipDir returned for a directory\<close>

text \<open>
  Claim C2 says that after the callback returns \<^verbatim>\<open>SkipDir\<close> for a directory, the
  entries after it in its parent are visited as usual. The walker does otherwise. Below
  the root, \<open>walk\<close> keeps the \<^verbatim>\<open>SkipDir\<close> in its variable \<^verbatim>\<open>err\<close>: the callback
  returns \<^verbatim>\<open>SkipDir\<close> for \<^verbatim>\<open>/a/b\<close>, and the next entry \<^verbatim>\<open>/a/c\<close> is passed to the
  callback with the error \<^verbatim>\<open>SkipDir\<close> and is not descended into, so that \<^verbatim>\<open>/a/c/f\<close> is
  never visited (first equation). In the root, \<open>GenericWalk\<close> returns at once: the
  callback returns \<^verbatim>\<open>SkipDir\<close> for \<^verbatim>\<open>/b\<close>, and \<^verbatim>\<open>/c\<close> is never visited (second
  equation). What the claim says of the directory itself holds: nothing inside it is
  visited (\<open>walk_stops_at_callback_error\<close>).
\<close>

theorem C2_SkipDir_changes_later_siblings:
  "GenericWalk ascii_lib 3 skip_fs ''/'' (observe skip_b) []
     = Some (None,
         [Call ''/a'' (Some (FileInfo ''a'' True)) None None,
          Call ''/a/b'' (Some (FileInfo ''b'' True)) None (Some SkipDir),
          Call ''/a/c'' (Some (FileInfo ''c'' True)) (Some SkipDir) None])
   \<and> GenericWalk ascii_lib 3 skip_top_fs ''/'' (observe skip_top_b) []
     = Some (None, [Call ''/b'' (Some (FileInfo ''b'' True)) None (Some SkipDir)])"
  by code_simp

subsection \<open>C3: siblings in case-insensitive order\<close>

text \<open>
  Claim C3. Let \<^verbatim>\<open>slices.SortFunc\<close> sort by the comparison function of \<open>readDirInfos\<close>, as
  its documentation promises. Then the listing that \<open>readDirInfos\<close> gives for a directory
  has its lower-cased names in non-decreasing order and holds the entries that \<open>ReadDir\<close>
  returned, each as often, whatever their order was. The calls of \<open>walk\<close> for a directory
  are the call for the directory itself followed by one segment of calls for each entry
  it reached, and the calls of \<open>GenericWalk\<close> are one segment for each entry of the root it
  reached. The segment of an entry is all the calls of the walk of that entry, or the
  one call made for it while \<^verbatim>\<open>err\<close> holds \<^verbatim>\<open>SkipDir\<close>; its first call is the call for the
  entry. The entries reached are the first \<open>length segs\<close> of the sorted listing (without
  \<^verbatim>\<open>.\<close> and \<^verbatim>\<open>..\<close> below the root), in its order: the siblings are passed to the callback
  with their lower-cased names in non-decreasing order.
\<close>

theorem C3_siblings_in_case_insensitive_order:
  assumes "sorts_by L (name_cmp L)"
  shows "sorted (map (\<lambda>j. ToLower L (Name j)) (infos_of (readDirInfos L fs dir)))
   \<and> mset (infos_of (readDirInfos L fs dir)) = mset (infos_of (fs dir))
   \<and> (IsDir i \<and> walk L (Suc n) fs dir i (observe f) h = Some (r, h') \<longrightarrow>
        (\<exists>c segs. h' = h @ c # concat segs \<and> c_path c = dir \<and> c_info c = Some i
           \<and> calls_of_entries (\<lambda>hist e seg. walked L n fs f dir hist e seg \<or> reported f dir hist e seg)
                (h @ [c]) (filter not_dot (infos_of (readDirInfos L fs dir))) segs
           \<and> map first_visit segs
               = map (visit_of dir)
                   (take (length segs) (filter not_dot (infos_of (readDirInfos L fs dir))))
           \<and> sorted (map (\<lambda>j. ToLower L (Name j))
                   (take (length segs) (filter not_dot (infos_of (readDirInfos L fs dir)))))))
   \<and> (fs dir = Inr l \<and> GenericWalk L n fs dir (observe f) h = Some (r, h') \<longrightarrow>
        (\<exists>segs. h' = h @ concat segs
           \<and> calls_of_entries (walked L n fs f dir) h (infos_of (readDirInfos L fs dir)) segs
           \<and> map first_visit segs
               = map (visit_of dir) (take (length segs) (infos_of (readDirInfos L fs dir)))
           \<and> sorted (map (\<lambda>j. ToLower L (Name j))
                   (take (length segs) (infos_of (readDirInfos L fs dir))))))"
proof (intro conjI impI)
  show s: "sorted (map (\<lambda>j. ToLower L (Name j)) (infos_of (readDirInfos L fs dir)))"
    using assms by (rule sorted_readDirInfos)
  show "mset (infos_of (readDirInfos L fs dir)) = mset (infos_of (fs dir))"
    using assms by (rule mset_readDirInfos)
  show "\<exists>c segs. h' = h @ c # concat segs \<and> c_path c = dir \<and> c_info c = Some i
           \<and> calls_of_entries (\<lambda>hist e seg. walked L n fs f dir hist e seg \<or> reported f dir hist e seg)
                (h @ [c]) (filter not_dot (infos_of (readDirInfos L fs dir))) segs
           \<and> map first_visit segs
               = map (visit_of dir)
                   (take (length segs) (filter not_dot (infos_of (readDirInfos L fs dir))))
           \<and> sorted (map (\<lambda>j. ToLower L (Name j))
                   (take (length segs) (filter not_dot (infos_of (readDirInfos L fs dir)))))"
    if "IsDir i \<and> walk L (Suc n) fs dir i (observe f) h = Some (r, h')"
  proof -
    from that obtain c segs where a: "h' = h @ c # concat segs" "c_path c = dir" "c_info c = Some i"
      and b: "calls_of_entries (\<lambda>hist e seg. walked L n fs f dir hist e seg \<or> reported f dir hist e seg)
                (h @ [c]) (filter not_dot (infos_of (readDirInfos L fs dir))) segs"
      using walk_dir_pinned [of i L n fs dir f h r h'] by blast
    have "map first_visit segs
        = map (visit_of dir) (take (length segs) (filter not_dot (infos_of (readDirInfos L fs dir))))"
      using b
    proof (rule calls_of_entries_first_visit [rotated])
      show "first_visit seg = visit_of dir e"
        if "walked L n fs f dir hist e seg \<or> reported f dir hist e seg" for hist e seg
        using that walked_first_visit reported_first_visit by blast
    qed
    moreover have "sorted (map (\<lambda>j. ToLower L (Name j))
        (take (length segs) (filter not_dot (infos_of (readDirInfos L fs dir)))))"
      using s by (rule sorted_take_filter)
    ultimately show ?thesis using a b by blast
  qed
  show "\<exists>segs. h' = h @ concat segs
           \<and> calls_of_entries (walked L n fs f dir) h (infos_of (readDirInfos L fs dir)) segs
           \<and> map first_visit segs
               = map (visit_of dir) (take (length segs) (infos_of (readDirInfos L fs dir)))
           \<and> sorted (map (\<lambda>j. ToLower L (Name j))
                   (take (length segs) (infos_of (readDirInfos L fs dir))))"
    if "fs dir = Inr l \<and> GenericWalk L n fs dir (observe f) h = Some (r, h')"
  proof -
    from that have "root_loop (\<lambda>p i s'. walk L n fs p i (observe f) s') dir
        (infos_of (readDirInfos L fs dir)) None h = Some (r, h')"
      by (auto simp: GenericWalk_def readDirInfos_def)
    then have "\<exists>segs. h' = h @ concat segs \<and>
           calls_of_entries (\<lambda>hist e seg.
               (case walk L n fs (Join dir (Name e)) e (observe f) hist of
                  None \<Rightarrow> False | Some (r, h2) \<Rightarrow> h2 = hist @ seg))
             h (infos_of (readDirInfos L fs dir)) segs"
      by (rule root_loop_pinned [rotated]) (rule walk_extends)
    then obtain segs where a: "h' = h @ concat segs"
      and b: "calls_of_entries (walked L n fs f dir) h (infos_of (readDirInfos L fs dir)) segs"
      by (auto simp: walked_def [abs_def])
    have "map first_visit segs
        = map (visit_of dir) (take (length segs) (infos_of (readDirInfos L fs dir)))"
      using b by (rule calls_of_entries_first_visit [rotated]) (rule walked_first_visit)
    moreover have "sorted (map (\<lambda>j. ToLower L (Name j))
        (take (length segs) (infos_of (readDirInfos L fs dir))))"
      using s by (rule sorted_take_map)
    ultimately show ?thesis using a b by blast
  qed
qed

theorem C3_siblings_in_case_insensitive_order_witness:
  "(sorted (map (\<lambda>j. ToLower ascii_lib (Name j))
       [FileInfo ''.'' True, FileInfo ''..'' True, FileInfo ''X'' True, FileInfo ''y'' False])
    \<and> mset [FileInfo ''.'' True, FileInfo ''..'' True, FileInfo ''X'' True, FileInfo ''y'' False]
        = mset [FileInfo ''y'' False, FileInfo ''..'' True, FileInfo ''X'' True, FileInfo ''.'' True]
    \<and> (\<exists>c segs.
        [Call ''/A'' (Some (FileInfo ''A'' True)) None None,
         Call ''/A/X'' (Some (FileInfo ''X'' True)) None None,
         Call ''/A/y'' (Some (FileInfo ''y'' False)) None None] = [] @ c # concat segs
        \<and> c_path c = ''/A'' \<and> c_info c = Some (FileInfo ''A'' True)
        \<and> calls_of_entries (\<lambda>hist e seg. walked ascii_lib 1 ex_fs always_nil ''/A'' hist e seg
                       \<or> reported always_nil ''/A'' hist e seg)
             ([] @ [c]) [FileInfo ''X'' True, FileInfo ''y'' False] segs
        \<and> map first_visit segs
            = map (visit_of ''/A'') (take (length segs) [FileInfo ''X'' True, FileInfo ''y'' False])
        \<and> sorted (map (\<lambda>j. ToLower ascii_lib (Name j))
            (take (length segs) [FileInfo ''X'' True, FileInfo ''y'' False]))))
   \<and> (\<exists>segs.
        [Call ''/A'' (Some (FileInfo ''A'' True)) None None,
         Call ''/A/X'' (Some (FileInfo ''X'' True)) None None,
         Call ''/A/y'' (Some (FileInfo ''y'' False)) None None,
         Call ''/b.txt'' (Some (FileInfo ''b.txt'' False)) None None] = [] @ concat segs
        \<and> calls_of_entries (walked ascii_lib 2 ex_fs always_nil ''/'') []
             [FileInfo ''A'' True, FileInfo ''b.txt'' False] segs
        \<and> map first_visit segs
            = map (visit_of ''/'') (take (length segs) [FileInfo ''A'' True, FileInfo ''b.txt'' False])
        \<and> sorted (map (\<lambda>j. ToLower ascii_lib (Name j))
            (take (length segs) [FileInfo ''A'' True, FileInfo ''b.txt'' False])))"
proof -
  have l: "ex_fs ''/'' = Inr [FileInfo ''b.txt'' False, FileInfo ''A'' True]"
    by (simp add: ex_fs_def)
  have la: "infos_of (ex_fs ''/A'')
      = [FileInfo ''y'' False, FileInfo ''..'' True, FileInfo ''X'' True, FileInfo ''.'' True]"
    by (simp add: ex_fs_def)
  have nd: "filter not_dot
      [FileInfo ''.'' True, FileInfo ''..'' True, FileInfo ''X'' True, FileInfo ''y'' False]
      = [FileInfo ''X'' True, FileInfo ''y'' False]"
    by (simp add: not_dot_def)
  have d: "IsDir (FileInfo ''A'' True)" by simp
  note a = C3_siblings_in_case_insensitive_order [OF ascii_lib_sorts, where fs = ex_fs
      and dir = "''/A''" and i = "FileInfo ''A'' True" and n = 1 and f = always_nil and h = "[]"
      and r = None
      and h' = "[Call ''/A'' (Some (FileInfo ''A'' True)) None None,
          Call ''/A/X'' (Some (FileInfo ''X'' True)) None None,
          Call ''/A/y'' (Some (FileInfo ''y'' False)) None None]"]
  note b = C3_siblings_in_case_insensitive_order [OF ascii_lib_sorts, where fs = ex_fs
      and dir = "''/''" and l = "[FileInfo ''b.txt'' False, FileInfo ''A'' True]"
      and n = 2 and f = always_nil and h = "[]" and r = None
      and h' = "[Call ''/A'' (Some (FileInfo ''A'' True)) None None,
          Call ''/A/X'' (Some (FileInfo ''X'' True)) None None,
          Call ''/A/y'' (Some (FileInfo ''y'' False)) None None,
          Call ''/b.txt'' (Some (FileInfo ''b.txt'' False)) None None]"]
  have 1: "sorted (map (\<lambda>j. ToLower ascii_lib (Name j))
       [FileInfo ''.'' True, FileInfo ''..'' True, FileInfo ''X'' True, FileInfo ''y'' False])"
    using a [THEN conjunct1] ex_listing_A by simp
  have 2: "mset [FileInfo ''.'' True, FileInfo ''..'' True, FileInfo ''X'' True, FileInfo ''y'' False]
        = mset [FileInfo ''y'' False, FileInfo ''..'' True, FileInfo ''X'' True, FileInfo ''.'' True]"
    using a [THEN conjunct2, THEN conjunct1] ex_listing_A la by simp
  have 3: "\<exists>c segs.
        [Call ''/A'' (Some (FileInfo ''A'' True)) None None,
         Call ''/A/X'' (Some (FileInfo ''X'' True)) None None,
         Call ''/A/y'' (Some (FileInfo ''y'' False)) None None] = [] @ c # concat segs
        \<and> c_path c = ''/A'' \<and> c_info c = Some (FileInfo ''A'' True)
        \<and> calls_of_entries (\<lambda>hist e seg. walked ascii_lib 1 ex_fs always_nil ''/A'' hist e seg
                       \<or> reported always_nil ''/A'' hist e seg)
             ([] @ [c]) [FileInfo ''X'' True, FileInfo ''y'' False] segs
        \<and> map first_visit segs
            = map (visit_of ''/A'') (take (length segs) [FileInfo ''X'' True, FileInfo ''y'' False])
        \<and> sorted (map (\<lambda>j. ToLower ascii_lib (Name j))
            (take (length segs) [FileInfo ''X'' True, FileInfo ''y'' False]))"
    using a [THEN conjunct2, THEN conjunct2, THEN conjunct1] d ex_walk_A2
    unfolding ex_listing_A nd by (simp del: append_Nil walk.simps)
  have 4: "\<exists>segs.
        [Call ''/A'' (Some (FileInfo ''A'' True)) None None,
         Call ''/A/X'' (Some (FileInfo ''X'' True)) None None,
         Call ''/A/y'' (Some (FileInfo ''y'' False)) None None,
         Call ''/b.txt'' (Some (FileInfo ''b.txt'' False)) None None] = [] @ concat segs
        \<and> calls_of_entries (walked ascii_lib 2 ex_fs always_nil ''/'') []
             [FileInfo ''A'' True, FileInfo ''b.txt'' False] segs
        \<and> map first_visit segs
            = map (visit_of ''/'') (take (length segs) [FileInfo ''A'' True, FileInfo ''b.txt'' False])
        \<and> sorted (map (\<lambda>j. ToLower ascii_lib (Name j))
            (take (length segs) [FileInfo ''A'' True, FileInfo ''b.txt'' False]))"
    using b [THEN conjunct2, THEN conjunct2, THEN conjunct2] l ex_walk_root
    unfolding ex_listing_root by (simp del: append_Nil)
  from 1 2 3 4 show ?thesis by blast
qed

subsection \<open>C4: a directory that cannot be read\<close>

text \<open>
  Claim C4. When \<open>ReadDir\<close> fails for a directory, the walk of that directory is one call
  of the callback with the directory and the error of \<open>ReadDir\<close>, and its result is what
  that call returned: this holds for \<open>walk\<close> (first conjunct) and for the root in
  \<open>GenericWalk\<close> (second conjunct). Nothing below the directory is visited. What the
  loop of the parent does next depends on the value \<open>r\<close> the callback returned only: in
  \<open>walk\<close> it goes on with the next entry when \<open>r\<close> is \<^verbatim>\<open>nil\<close> or \<^verbatim>\<open>SkipDir\<close> and returns
  \<open>r\<close> otherwise (third conjunct); in \<open>GenericWalk\<close> it stops on \<^verbatim>\<open>SkipDir\<close> and
  \<^verbatim>\<open>SkipAll\<close> and goes on otherwise (fourth conjunct).
\<close>

theorem C4_failed_directory_one_call:
  "(fs p = Inl e \<and> IsDir i \<longrightarrow>
      walk L (Suc n) fs p i fn s = Some (fn p (Some i) (Some e) s))
   \<and> (fs root = Inl e \<longrightarrow>
      GenericWalk L n fs root fn s = Some (fn root None (Some e) s))
   \<and> (fs (Join dir (Name i)) = Inl e \<and> IsDir i \<and> not_dot i
        \<and> fn (Join dir (Name i)) (Some i) (Some e) s = (r, s1) \<longrightarrow>
      walk_loop (\<lambda>p i s'. walk L (Suc n) fs p i fn s') fn dir (i # rest) None s =
        (if r = None then walk_loop (\<lambda>p i s'. walk L (Suc n) fs p i fn s') fn dir rest None s1
         else if r = Some SkipDir
           then walk_loop (\<lambda>p i s'. walk L (Suc n) fs p i fn s') fn dir rest (Some SkipDir) s1
         else Some (r, s1)))
   \<and> (fs (Join root (Name i)) = Inl e \<and> IsDir i
        \<and> fn (Join root (Name i)) (Some i) (Some e) s = (r, s1) \<longrightarrow>
      root_loop (\<lambda>p i s'. walk L (Suc n) fs p i fn s') root (i # rest) err s =
        (if r = Some SkipDir then Some (None, s1)
         else if r = Some SkipAll then Some (None, s1)
         else root_loop (\<lambda>p i s'. walk L (Suc n) fs p i fn s') root rest r s1))"
proof -
  have w: "walk L (Suc n) fs p i fn s = Some (fn p (Some i) (Some e) s)"
    if "fs p = Inl e" "IsDir i" for p i s
    using that by (simp add: readDirInfos_def split: prod.splits)
  have g: "GenericWalk L n fs root fn s = Some (fn root None (Some e) s)" if "fs root = Inl e"
    using that by (simp add: GenericWalk_def readDirInfos_def)
  have l: "walk_loop (\<lambda>p i s'. walk L (Suc n) fs p i fn s') fn dir (i # rest) None s =
        (if r = None then walk_loop (\<lambda>p i s'. walk L (Suc n) fs p i fn s') fn dir rest None s1
         else if r = Some SkipDir
           then walk_loop (\<lambda>p i s'. walk L (Suc n) fs p i fn s') fn dir rest (Some SkipDir) s1
         else Some (r, s1))"
    if a: "fs (Join dir (Name i)) = Inl e" "IsDir i" and nd: "not_dot i"
      and cb: "fn (Join dir (Name i)) (Some i) (Some e) s = (r, s1)"
  proof -
    have "walk L (Suc n) fs (Join dir (Name i)) i fn s = Some (r, s1)"
      using w [OF a] cb by simp
    then show ?thesis
      using walk_loop_rec [where rec = "\<lambda>p i s'. walk L (Suc n) fs p i fn s'" and fn = fn
          and path = dir and j = i and s = s and ?r1.0 = r and ?s1.0 = s1 and rest = rest, OF nd]
        a(2)
      by (simp del: walk.simps)
  qed
  have rl: "root_loop (\<lambda>p i s'. walk L (Suc n) fs p i fn s') root (i # rest) err s =
        (if r = Some SkipDir then Some (None, s1)
         else if r = Some SkipAll then Some (None, s1)
         else root_loop (\<lambda>p i s'. walk L (Suc n) fs p i fn s') root rest r s1)"
    if a: "fs (Join root (Name i)) = Inl e" "IsDir i"
      and cb: "fn (Join root (Name i)) (Some i) (Some e) s = (r, s1)"
  proof -
    have "walk L (Suc n) fs (Join root (Name i)) i fn s = Some (r, s1)"
      using w [OF a] cb by simp
    then show ?thesis by (simp add: Let_def del: walk.simps)
  qed
  show ?thesis using w g l rl by blast
qed

theorem C4_failed_directory_witness:
  "walk ascii_lib 1 half_fs ''/d'' (FileInfo ''d'' True) (observe always_nil) []
     = Some (None, [Call ''/d'' (Some (FileInfo ''d'' True)) (Some (OtherError ''permission denied'')) None])
   \<and> GenericWalk ascii_lib 0 broken_fs ''/'' (observe always_nil) []
     = Some (None, [Call ''/'' None (Some (OtherError ''input/output error'')) None])
   \<and> walk_loop (\<lambda>p i s'. walk ascii_lib 1 half_fs p i (observe always_nil) s') (observe always_nil) ''/''
        [FileInfo ''d'' True] None []
     = Some (None, [Call ''/d'' (Some (FileInfo ''d'' True)) (Some (OtherError ''permission denied'')) None])
   \<and> root_loop (\<lambda>p i s'. walk ascii_lib 1 half_fs p i (observe always_nil) s') ''/''
        [FileInfo ''d'' True] None []
     = Some (None, [Call ''/d'' (Some (FileInfo ''d'' True)) (Some (OtherError ''permission denied'')) None])"
  using C4_failed_directory_one_call [where L = ascii_lib and fs = half_fs and p = "''/d''"
      and e = "OtherError ''permission denied''" and i = "FileInfo ''d'' True" and n = 0
      and fn = "observe always_nil" and s = "[]" and root = "''/''" and dir = "''/''" and r = None
      and ?s1.0 = "[Call ''/d'' (Some (FileInfo ''d'' True)) (Some (OtherError ''permission denied'')) None]"
      and rest = "[]" and err = None]
    C4_failed_directory_one_call [where L = ascii_lib and fs = broken_fs and root = "''/''"
      and e = "OtherError ''input/output error''" and n = 0 and fn = "observe always_nil" and s = "[]"]
  by (simp add: half_fs_def broken_fs_def observe_def always_nil_def Join_root_d not_dot_def
      del: walk.simps)

subsection \<open>C5: SkipAll\<close>

text \<open>
  Claim C5 says that \<open>GenericWalk\<close> returns \<^verbatim>\<open>nil\<close> when the callback returns
  \<^verbatim>\<open>SkipAll\<close>. When \<open>ReadDir\<close> fails for the root and the callback returns \<^verbatim>\<open>SkipAll\<close>
  for that error, \<open>GenericWalk\<close> returns \<^verbatim>\<open>SkipAll\<close>. When the root can be read, the
  claim holds (\<open>SkipAll_ends_walk_when_root_is_read\<close>).
\<close>

theorem C5_SkipAll_returned_when_root_fails:
  "GenericWalk ascii_lib 3 unmounted_fs ''/mnt'' (observe abort_all) []
     = Some (Some SkipAll,
         [Call ''/mnt'' None (Some (OtherError ''no such device'')) (Some SkipAll)])"
  by code_simp

subsection \<open>C6: finalize, then read back\<close>



subsection \<open>C7: termination on finite trees\<close>

text \<open>
  Claim C7. When the filesystem at and below an entry is a finite tree \<open>t\<close>, \<open>walk\<close>
  returns for every callback and every state of it, within a recursion depth of the
  height of \<open>t\<close>; when the filesystem below the root is a finite forest \<open>ts\<close>,
  \<open>GenericWalk\<close> returns within the height of the forest, for every callback. A greater
  bound on the depth gives the same result. Without a finite tree the walk may not return
  (\<open>GenericWalk_endless\<close>).
\<close>

theorem C7_walk_terminates_on_finite_trees:
  "(unfolds L fs t \<and> height t \<le> n \<longrightarrow> (\<exists>r. walk L n fs (t_path t) (t_info t) fn s = Some r))
   \<and> (root_unfolds L fs root ts \<and> forest_height ts \<le> n \<longrightarrow>
        (\<exists>r. GenericWalk L n fs root fn s = Some r))
   \<and> (GenericWalk L n fs root fn s = Some r \<and> n \<le> m \<longrightarrow> GenericWalk L m fs root fn s = Some r)"
  using walk_returns [of L fs t n fn s] GenericWalk_returns [of L fs root ts n fn s]
    GenericWalk_fuel_mono [of L n fs root fn s r m]
  by blast

theorem C7_walk_terminates_witness:
  "(\<exists>r. walk ascii_lib 2 ex_fs ''/A'' (FileInfo ''A'' True) (observe abort_all) [] = Some r)
   \<and> (\<exists>r. GenericWalk ascii_lib 2 ex_fs ''/'' (observe abort_all) [] = Some r)
   \<and> GenericWalk ascii_lib 5 ex_fs ''/'' (observe abort_all) []
       = Some (None, [Call ''/A'' (Some (FileInfo ''A'' True)) None (Some SkipAll)])"
proof -
  have g: "GenericWalk ascii_lib 2 ex_fs ''/'' (observe abort_all) []
       = Some (None, [Call ''/A'' (Some (FileInfo ''A'' True)) None (Some SkipAll)])"
    by code_simp
  have hd: "t_path (hd ex_forest) = ''/A''" "t_info (hd ex_forest) = FileInfo ''A'' True"
    by (simp_all add: ex_forest_def)
  show ?thesis
    using C7_walk_terminates_on_finite_trees [where L = ascii_lib and fs = ex_fs and t = "hd ex_forest" and n = 2
        and fn = "observe abort_all" and s = "[]" and root = "''/''" and ts = ex_forest and m = 5
        and r = "(None, [Call ''/A'' (Some (FileInfo ''A'' True)) None (Some SkipAll)])"]
      ex_forest_unfolds ex_forest_A_unfolds ex_forest_height ex_forest_A_height g hd
    by simp
qed

subsection \<open>C8: the names . and ..\<close>

text \<open>
  Claim C8. In the calls of \<open>walk\<close> for an entry, every call after the first one, which
  is for the entry itself, has a \<open>FileInfo\<close> whose name is neither \<^verbatim>\<open>.\<close> nor
  \<^verbatim>\<open>..\<close>: below the root such entries never reach the callback, and so they are never
  descended into, since \<open>walk\<close> calls the callback for an entry before anything else.
  The listing of the root is not filtered: with a callback that returns \<^verbatim>\<open>nil\<close>,
  \<open>GenericWalk\<close> walks every entry that \<open>ReadDir\<close> lists for the root, in sorted order,
  those named \<^verbatim>\<open>.\<close> and \<^verbatim>\<open>..\<close> included.
\<close>

theorem C8_dot_entries_skipped_below_root_only:
  "(walk L n fs p i (observe f) h = Some (r, h') \<longrightarrow>
      (\<exists>c cs. h' = h @ c # cs \<and> c_path c = p \<and> c_info c = Some i
         \<and> list_all names_a_real_entry cs))
   \<and> (fs root = Inr l \<and> GenericWalk L n fs root (observe always_nil) h = Some (r, h') \<longrightarrow>
      (\<exists>segs. h' = h @ concat segs
         \<and> map first_visit segs = map (visit_of root) (SortFunc L (name_cmp L) l)))"
proof (intro conjI impI)
  assume "walk L n fs p i (observe f) h = Some (r, h')"
  then show "\<exists>c cs. h' = h @ c # cs \<and> c_path c = p \<and> c_info c = Some i
         \<and> list_all names_a_real_entry cs"
    by (rule walk_real_entries)
next
  assume a: "fs root = Inr l \<and> GenericWalk L n fs root (observe always_nil) h = Some (r, h')"
  then have l: "fs root = Inr l"
    and g: "GenericWalk L n fs root (observe always_nil) h = Some (r, h')"
    by simp_all
  from g l have "root_loop (\<lambda>p i s'. walk L n fs p i (observe always_nil) s') root
      (SortFunc L (name_cmp L) l) None h = Some (r, h')"
    by (simp add: GenericWalk_def readDirInfos_def)
  then show "\<exists>segs. h' = h @ concat segs
         \<and> map first_visit segs = map (visit_of root) (SortFunc L (name_cmp L) l)"
  proof (rule root_loop_visits_all [rotated 2])
    show "\<exists>c cs. h2 = h1 @ c # cs \<and> c_path c = q \<and> c_info c = Some j"
      if "walk L n fs q j (observe always_nil) h1 = Some (r1, h2)" for q j h1 r1 h2
      using that by (rule walk_first_call)
    show "r1 = None" if "walk L n fs q j (observe always_nil) h1 = Some (r1, h2)" for q j h1 r1 h2
      using that by (rule walk_nil_result)
  qed
qed

theorem C8_dot_entries_skipped_below_root_only_witness:
  "(\<exists>c cs.
      [Call ''/A'' (Some (FileInfo ''A'' True)) None None,
       Call ''/A/X'' (Some (FileInfo ''X'' True)) None None,
       Call ''/A/y'' (Some (FileInfo ''y'' False)) None None] = [] @ c # cs
      \<and> c_path c = ''/A'' \<and> c_info c = Some (FileInfo ''A'' True)
      \<and> list_all names_a_real_entry cs)
   \<and> (\<exists>segs.
      [Call ''/'' (Some (FileInfo ''.'' True)) None None,
       Call ''/f'' (Some (FileInfo ''f'' False)) None None,
       Call ''/'' (Some (FileInfo ''..'' True)) None None,
       Call ''/f'' (Some (FileInfo ''f'' False)) None None,
       Call ''/f'' (Some (FileInfo ''f'' False)) None None] = [] @ concat segs
      \<and> map first_visit segs
          = map (visit_of ''/'') [FileInfo ''.'' True, FileInfo ''..'' True, FileInfo ''f'' False])"
proof -
  have l: "dots_fs ''/'' = Inr [FileInfo ''f'' False, FileInfo ''..'' True, FileInfo ''.'' True]"
    by (simp add: dots_fs_def)
  note a = C8_dot_entries_skipped_below_root_only [where L = ascii_lib and fs = ex_fs and p = "''/A''"
      and i = "FileInfo ''A'' True" and n = 2 and f = always_nil and h = "[]" and r = None
      and h' = "[Call ''/A'' (Some (FileInfo ''A'' True)) None None,
          Call ''/A/X'' (Some (FileInfo ''X'' True)) None None,
          Call ''/A/y'' (Some (FileInfo ''y'' False)) None None]"]
  note b = C8_dot_entries_skipped_below_root_only [where L = ascii_lib and fs = dots_fs and root = "''/''"
      and l = "[FileInfo ''f'' False, FileInfo ''..'' True, FileInfo ''.'' True]"
      and n = 2 and h = "[]" and r = None
      and h' = "[Call ''/'' (Some (FileInfo ''.'' True)) None None,
       Call ''/f'' (Some (FileInfo ''f'' False)) None None,
       Call ''/'' (Some (FileInfo ''..'' True)) None None,
       Call ''/f'' (Some (FileInfo ''f'' False)) None None,
       Call ''/f'' (Some (FileInfo ''f'' False)) None None]"]
  have 1: "\<exists>c cs.
      [Call ''/A'' (Some (FileInfo ''A'' True)) None None,
       Call ''/A/X'' (Some (FileInfo ''X'' True)) None None,
       Call ''/A/y'' (Some (FileInfo ''y'' False)) None None] = [] @ c # cs
      \<and> c_path c = ''/A'' \<and> c_info c = Some (FileInfo ''A'' True)
      \<and> list_all names_a_real_entry cs"
    using a [THEN conjunct1] ex_walk_A by (simp del: append_Nil)
  have 2: "\<exists>segs.
      [Call ''/'' (Some (FileInfo ''.'' True)) None None,
       Call ''/f'' (Some (FileInfo ''f'' False)) None None,
       Call ''/'' (Some (FileInfo ''..'' True)) None None,
       Call ''/f'' (Some (FileInfo ''f'' False)) None None,
       Call ''/f'' (Some (FileInfo ''f'' False)) None None] = [] @ concat segs
      \<and> map first_visit segs
          = map (visit_of ''/'') [FileInfo ''.'' True, FileInfo ''..'' True, FileInfo ''f'' False]"
    using b [THEN conjunct2] l dots_walk_root dots_listing_sorted by (simp del: append_Nil)
  from 1 2 show ?thesis by blast
qed

subsection \<open>C9: the root path and the callback\<close>

text \<open>
  Claim C9 says that the root path is never passed to the callback when the listing of
  the root succeeds. The listing of \<^verbatim>\<open>/data\<close> succeeds and holds an entry \<^verbatim>\<open>.\<close>;
  \<open>GenericWalk\<close> joins the root and that name to \<^verbatim>\<open>/data\<close> and walks it, so the first call
  of the callback has the root path. The entry \<^verbatim>\<open>x\<close> is then visited twice.
\<close>

theorem C9_root_path_passed_for_dot_entry:
  "GenericWalk ascii_lib 3 data_fs ''/data'' (observe always_nil) []
     = Some (None,
         [Call ''/data'' (Some (FileInfo ''.'' True)) None None,
          Call ''/data/x'' (Some (FileInfo ''x'' False)) None None,
          Call ''/data/x'' (Some (FileInfo ''x'' False)) None None])"
  by code_simp

subsection \<open>C10: the result when the root cannot be read\<close>

text \<open>
  Claim C10. When \<open>ReadDir\<close> fails for the root, \<open>GenericWalk\<close> returns the value and the
  state of the one call \<open>fn root nil err\<close>, whatever the value is: a \<^verbatim>\<open>SkipDir\<close> or
  \<^verbatim>\<open>SkipAll\<close> that the callback returns there is the result of \<open>GenericWalk\<close>.
\<close>

theorem C10_root_failure_returns_callback_value:
  "fs root = Inl e \<Longrightarrow> GenericWalk L n fs root fn s = Some (fn root None (Some e) s)"
  by (simp add: GenericWalk_def readDirInfos_def)

theorem C10_root_failure_returns_callback_value_witness:
  "broken_fs ''/'' = Inl (OtherError ''input/output error'') \<and>
   GenericWalk ascii_lib 0 broken_fs ''/'' (observe abort_all) []
     = Some (Some SkipAll,
         [Call ''/'' None (Some (OtherError ''input/output error'')) (Some SkipAll)])"
proof -
  have a: "broken_fs ''/'' = Inl (OtherError ''input/output error'')"
    by (simp add: broken_fs_def)
  show ?thesis
    using C10_root_failure_returns_callback_value
      [where L = ascii_lib and fs = broken_fs and root = "''/''" and n = 0 and fn = "observe abort_all" and s = "[]", OF a] a
    by (simp add: observe_def abort_all_def)
qed

end
